theory Spec2Isabelle
  imports Main "HOL-Library.Monad_Syntax"
begin

section \<open>Conway's Game of Life on a bordered grid: Game.hpp and Game.cpp\<close>

text \<open>
  The C++ class \<open>Game\<close> owns a two-dimensional array \<open>int **grid\<close>, indexed
  \<open>grid[col][row]\<close>, its dimensions, a margin (\<open>buffer\<close>) and the vector of the
  pattern's cells. Every method is modelled as a function from the object's state to
  the new state. C++ has no checked failure here: an index outside an allocated array, a
  signed overflow and a negative array length leave the defined behaviour of the
  program. The model returns \<open>None\<close> at exactly these points, so \<open>Some\<close> means that
  the execution is defined and \<open>None\<close> that it is not.
\<close>

subsection \<open>Cell states and machine integers\<close>

text \<open>\<^verbatim>\<open>#define ALIVE 1\<close> and \<^verbatim>\<open>#define DEAD 0\<close>.\<close>

abbreviation ALIVE :: int where
  "ALIVE \<equiv> 1"

abbreviation DEAD :: int where
  "DEAD \<equiv> 0"

text \<open>\<open>int\<close> is taken to be 32 bits wide; an addition that leaves the range is undefined.\<close>

definition INT_MIN :: int where
  "INT_MIN = - 2147483648"

definition INT_MAX :: int where
  "INT_MAX = 2147483647"

definition add_int :: "int \<Rightarrow> int \<Rightarrow> int option" where
  "add_int a b = (if INT_MIN \<le> a + b \<and> a + b \<le> INT_MAX then Some (a + b) else None)"

subsection \<open>Arrays\<close>

text \<open>
  An array is a list; \<open>load\<close> and \<open>store\<close> are \<open>a[i]\<close> as an rvalue and as an
  lvalue, defined only inside the array. \<open>new_array\<close> is \<open>new T[n]\<close>: a negative length
  throws, and the elements of the fresh array are indeterminate. The model fills a
  fresh \<open>int\<close> array with a placeholder that is neither \<open>ALIVE\<close> nor \<open>DEAD\<close>; the
  code overwrites every element of a fresh array before it reads one.
\<close>

definition load :: "'a list \<Rightarrow> int \<Rightarrow> 'a option" where
  "load a i = (if 0 \<le> i \<and> i < int (length a) then Some (a ! nat i) else None)"

definition store :: "'a list \<Rightarrow> int \<Rightarrow> 'a \<Rightarrow> 'a list option" where
  "store a i v = (if 0 \<le> i \<and> i < int (length a) then Some (a[nat i := v]) else None)"

definition new_array :: "int \<Rightarrow> 'a \<Rightarrow> 'a list option" where
  "new_array n junk = (if 0 \<le> n then Some (replicate (nat n) junk) else None)"

definition indeterminate :: int where
  "indeterminate = - 1"

text \<open>\<open>g[x][y]\<close> read and written, for \<open>int **g\<close>.\<close>

definition read_cell :: "int list list \<Rightarrow> int \<Rightarrow> int \<Rightarrow> int option" where
  "read_cell gr x y = do { col \<leftarrow> load gr x; load col y }"

definition write_cell :: "int list list \<Rightarrow> int \<Rightarrow> int \<Rightarrow> int \<Rightarrow> int list list option" where
  "write_cell gr x y v = do { col \<leftarrow> load gr x; col' \<leftarrow> store col y v; store gr x col' }"

subsection \<open>The counting loop\<close>

text \<open>
  \<^verbatim>\<open>for (int i = a; i < n; ++i) body\<close>, where the body maps the state to the next
  state or is undefined. None of the loops of the program changes its own bound.
\<close>

function for_loop :: "int \<Rightarrow> int \<Rightarrow> (int \<Rightarrow> 's \<Rightarrow> 's option) \<Rightarrow> 's \<Rightarrow> 's option" where
  "for_loop i n body s =
     (if i < n then
        (case body i s of None \<Rightarrow> None | Some s' \<Rightarrow> for_loop (i + 1) n body s')
      else Some s)"
  by pat_completeness auto
termination
  by (relation "measure (\<lambda>(i, n, body, s). nat (n - i))") auto

declare for_loop.simps [simp del]

subsection \<open>The data of Game.hpp\<close>

text \<open>\<open>struct Cell { int x; int y; }\<close>, its constructor taking \<open>x\<close> then \<open>y\<close>.\<close>

datatype Cell = Cell (cell_x: int) (cell_y: int)

record Game =
  width :: int
  height :: int
  buffer :: int
  generations :: int
  pauseLength :: int
  grid :: "int list list"
  patternCells :: "Cell list"

subsection \<open>Game::clearGrid\<close>

definition clearGrid :: "Game \<Rightarrow> Game option" where
  "clearGrid g =
     for_loop 0 (width g) (\<lambda>col g1.
       for_loop 0 (height g1) (\<lambda>row g2. do {
         gr \<leftarrow> write_cell (grid g2) col row DEAD;
         Some (g2\<lparr>grid := gr\<rparr>)
       }) g1) g"

subsection \<open>Game::determineFate\<close>

text \<open>The local \<open>totalLiveNeighbors\<close>: eight reads of the current grid, added left to right.\<close>

definition totalLiveNeighbors :: "Game \<Rightarrow> int \<Rightarrow> int \<Rightarrow> int option" where
  "totalLiveNeighbors g x y = do {
     a \<leftarrow> read_cell (grid g) (x - 1) (y - 1);
     b \<leftarrow> read_cell (grid g) (x - 1) y;
     c \<leftarrow> read_cell (grid g) (x - 1) (y + 1);
     d \<leftarrow> read_cell (grid g) x (y - 1);
     e \<leftarrow> read_cell (grid g) x (y + 1);
     f \<leftarrow> read_cell (grid g) (x + 1) (y - 1);
     h \<leftarrow> read_cell (grid g) (x + 1) y;
     k \<leftarrow> read_cell (grid g) (x + 1) (y + 1);
     s1 \<leftarrow> add_int a b;
     s2 \<leftarrow> add_int s1 c;
     s3 \<leftarrow> add_int s2 d;
     s4 \<leftarrow> add_int s3 e;
     s5 \<leftarrow> add_int s4 f;
     s6 \<leftarrow> add_int s5 h;
     add_int s6 k
   }"

definition determineFate :: "Game \<Rightarrow> Cell \<Rightarrow> int list list \<Rightarrow> int list list option" where
  "determineFate g c nextGrid = do {
     let x = cell_x c;
     let y = cell_y c;
     total \<leftarrow> totalLiveNeighbors g x y;
     if total < 2 \<or> total > 3 then
       write_cell nextGrid x y DEAD
     else if total = 2 then do {
       cur \<leftarrow> read_cell (grid g) x y;
       write_cell nextGrid x y cur
     }
     else
       write_cell nextGrid x y ALIVE
   }"

subsection \<open>Game::initializePattern\<close>

definition initializePattern :: "Game \<Rightarrow> Game option" where
  "initializePattern g = (
     let len = int (length (patternCells g)) in
     for_loop 0 len (\<lambda>cell g1. do {
       cur \<leftarrow> load (patternCells g1) cell;
       gr \<leftarrow> write_cell (grid g1) (cell_x cur) (cell_y cur) ALIVE;
       Some (g1\<lparr>grid := gr\<rparr>)
     }) g)"

subsection \<open>Game::setPatternVector\<close>

text \<open>
  The \<open>switch\<close> of \<open>setPatternVector\<close>: the vector assigned to \<open>patternCells\<close> for each of
  the three letters; \<open>None\<close> is the \<open>default\<close> branch, which assigns nothing.
\<close>

definition base_pattern :: "char \<Rightarrow> Cell list option" where
  "base_pattern pattern =
     (if pattern = CHR ''o'' then Some
        [Cell 1 0, Cell 1 1, Cell 1 2]
      else if pattern = CHR ''g'' then Some
        [Cell 0 2, Cell 1 0, Cell 1 2, Cell 2 1,
         Cell 2 2]
      else if pattern = CHR ''u'' then Some
        [Cell 0 4, Cell 0 5, Cell 1 4, Cell 1 5,
         Cell 10 4, Cell 10 5, Cell 10 6, Cell 11 3,
         Cell 11 7, Cell 12 2, Cell 12 8, Cell 13 2,
         Cell 13 8, Cell 14 5, Cell 15 3, Cell 15 7,
         Cell 16 4, Cell 16 5, Cell 16 6, Cell 17 5,
         Cell 20 2, Cell 20 3, Cell 20 4, Cell 21 2,
         Cell 21 3, Cell 21 4, Cell 22 1, Cell 22 5,
         Cell 24 0, Cell 24 1, Cell 24 5, Cell 24 6,
         Cell 34 2, Cell 34 3, Cell 35 2, Cell 35 3]
      else None)"

text \<open>One pass of the shifting loop: \<open>patternCells[cell].x += buffer + xOffset\<close>, then the same for \<open>y\<close>.\<close>

definition shift_cell :: "int \<Rightarrow> int \<Rightarrow> int \<Rightarrow> Game \<Rightarrow> Game option" where
  "shift_cell xOffset yOffset cell g = do {
     c \<leftarrow> load (patternCells g) cell;
     dx \<leftarrow> add_int (buffer g) xOffset;
     nx \<leftarrow> add_int (cell_x c) dx;
     dy \<leftarrow> add_int (buffer g) yOffset;
     ny \<leftarrow> add_int (cell_y c) dy;
     cells \<leftarrow> store (patternCells g) cell (Cell nx ny);
     Some (g\<lparr>patternCells := cells\<rparr>)
   }"

definition setPatternVector :: "Game \<Rightarrow> char \<Rightarrow> int \<Rightarrow> int \<Rightarrow> Game option" where
  "setPatternVector g pattern xOffset yOffset = (
     let g1 = (case base_pattern pattern of
                 Some cells \<Rightarrow> g\<lparr>patternCells := cells\<rparr>
               | None \<Rightarrow> g);
         len = int (length (patternCells g1))
     in for_loop 0 len (shift_cell xOffset yOffset) g1)"

subsection \<open>Game::Game\<close>

text \<open>
  The constructor. \<open>patternCells\<close> of a fresh object is the empty vector. The two array
  allocations are followed by \<open>clearGrid\<close>, \<open>setPatternVector\<close> and \<open>initializePattern\<close>.
\<close>

definition new_Game :: "int \<Rightarrow> int \<Rightarrow> char \<Rightarrow> int \<Rightarrow> int \<Rightarrow> int \<Rightarrow> int \<Rightarrow> Game option" where
  "new_Game w h pattern xOffset yOffset gens pause = do {
     let buf = 5;
     tw \<leftarrow> add_int w (2 * buf);
     th \<leftarrow> add_int h (2 * buf);
     cols \<leftarrow> new_array tw [];
     gr \<leftarrow> for_loop 0 tw (\<lambda>col a. do {
             column \<leftarrow> new_array th indeterminate;
             store a col column
           }) cols;
     let g0 = \<lparr>width = tw, height = th, buffer = buf, generations = gens,
               pauseLength = pause, grid = gr, patternCells = []\<rparr>;
     g1 \<leftarrow> clearGrid g0;
     g2 \<leftarrow> setPatternVector g1 pattern xOffset yOffset;
     initializePattern g2
   }"

subsection \<open>Game::tick\<close>

text \<open>
  Three loop nests: the scratch grid is allocated and filled with \<open>DEAD\<close>; every cell
  off the border has its fate written into the scratch grid; the same cells are copied
  back. The deallocation at the end changes nothing that is observed.
\<close>

definition tick :: "Game \<Rightarrow> Game option" where
  "tick g = do {
     cols \<leftarrow> new_array (width g) [];
     nextGrid0 \<leftarrow> for_loop 0 (width g) (\<lambda>col ng. do {
             column \<leftarrow> new_array (height g) indeterminate;
             ng1 \<leftarrow> store ng col column;
             for_loop 0 (height g) (\<lambda>row ng2. write_cell ng2 col row DEAD) ng1
           }) cols;
     nextGrid \<leftarrow> for_loop 1 (width g - 1) (\<lambda>x ng.
             for_loop 1 (height g - 1) (\<lambda>y ng1.
               determineFate g (Cell x y) ng1) ng) nextGrid0;
     for_loop 1 (width g - 1) (\<lambda>x g1.
       for_loop 1 (height g1 - 1) (\<lambda>y g2. do {
         v \<leftarrow> read_cell nextGrid x y;
         gr \<leftarrow> write_cell (grid g2) x y v;
         Some (g2\<lparr>grid := gr\<rparr>)
       }) g1) g
   }"

text \<open>\<open>n\<close> ticks in a row, as the loop of \<open>play\<close> runs them.\<close>

fun ticks :: "nat \<Rightarrow> Game \<Rightarrow> Game option" where
  "ticks 0 g = Some g"
| "ticks (Suc n) g = (case tick g of None \<Rightarrow> None | Some g' \<Rightarrow> ticks n g')"

subsection \<open>Game::printWholeGrid and Game::printWindow\<close>

text \<open>
  The state of the printing loops is the text written to \<open>std::cout\<close> so far, a
  character at a time; \<open>'\n'\<close> is the character 10.
\<close>

definition print_rows :: "Game \<Rightarrow> int \<Rightarrow> int \<Rightarrow> int \<Rightarrow> int \<Rightarrow> string option" where
  "print_rows g row0 row1 col0 col1 =
     for_loop row0 row1 (\<lambda>row out. do {
       out1 \<leftarrow> for_loop col0 col1 (\<lambda>col out2. do {
                 v \<leftarrow> read_cell (grid g) col row;
                 let c = (if v = ALIVE then CHR ''X'' else CHR ''.'');
                 Some (out2 @ [c])
               }) out;
       Some (out1 @ [CHR 0x0A])
     }) []"

definition printWholeGrid :: "Game \<Rightarrow> string option" where
  "printWholeGrid g = print_rows g 0 (height g) 0 (width g)"

definition printWindow :: "Game \<Rightarrow> string option" where
  "printWindow g =
     print_rows g (buffer g) (height g - buffer g) (buffer g) (width g - buffer g)"


subsection \<open>Notions used to state the properties\<close>

text \<open>
  A grid of \<open>w\<close> columns of \<open>h\<close> cells each, and a game whose \<open>grid\<close> has the
  dimensions its \<open>width\<close> and \<open>height\<close> fields announce. \<open>binary\<close> says that every
  cell is \<open>DEAD\<close> or \<open>ALIVE\<close>, \<open>all_dead\<close> that every cell is \<open>DEAD\<close>.
\<close>

definition dims :: "int list list \<Rightarrow> int \<Rightarrow> int \<Rightarrow> bool" where
  "dims gr w h \<longleftrightarrow>
     0 \<le> w \<and> int (length gr) = w \<and> list_all (\<lambda>c. int (length c) = h) gr"

definition well_formed :: "Game \<Rightarrow> bool" where
  "well_formed g \<longleftrightarrow> dims (grid g) (width g) (height g)"

definition binary :: "int list list \<Rightarrow> bool" where
  "binary gr \<longleftrightarrow> list_all (list_all (\<lambda>v. v = DEAD \<or> v = ALIVE)) gr"

definition all_dead :: "int list list \<Rightarrow> bool" where
  "all_dead gr \<longleftrightarrow> list_all (list_all (\<lambda>v. v = DEAD)) gr"

text \<open>The cells a tick rewrites, and the one-cell border it leaves alone.\<close>

definition interior :: "Game \<Rightarrow> int \<Rightarrow> int \<Rightarrow> bool" where
  "interior g x y \<longleftrightarrow> 1 \<le> x \<and> x < width g - 1 \<and> 1 \<le> y \<and> y < height g - 1"


text \<open>
  The rule of section 4.2 of the specification as a function of the count (\<open>ALIVE\<close>
  at 3, the current state at 2, \<open>DEAD\<close> at every other count), and the sum of the
  eight Moore neighbours of section 4.1.
\<close>

definition nextState :: "int \<Rightarrow> int \<Rightarrow> int" where
  "nextState currentState count =
     (if count = 3 then ALIVE else if count = 2 then currentState else DEAD)"

definition cell_at :: "int list list \<Rightarrow> int \<Rightarrow> int \<Rightarrow> int" where
  "cell_at gr x y = gr ! nat x ! nat y"

definition neighborSum :: "int list list \<Rightarrow> int \<Rightarrow> int \<Rightarrow> int" where
  "neighborSum gr x y =
     cell_at gr (x - 1) (y - 1) + cell_at gr (x - 1) y + cell_at gr (x - 1) (y + 1) +
     cell_at gr x (y - 1) + cell_at gr x (y + 1) +
     cell_at gr (x + 1) (y - 1) + cell_at gr (x + 1) y + cell_at gr (x + 1) (y + 1)"

text \<open>A cell moved by \<open>(dx, dy)\<close>, as the catalogue's offsets are moved onto the grid.\<close>

definition shift_by :: "int \<Rightarrow> int \<Rightarrow> Cell \<Rightarrow> Cell" where
  "shift_by dx dy c = Cell (cell_x c + dx) (cell_y c + dy)"

text \<open>The cells \<open>setPatternVector\<close> starts from: the catalogue's, or for any other letter
  the ones already stored.\<close>

definition start_cells :: "Game \<Rightarrow> char \<Rightarrow> Cell list" where
  "start_cells g pattern =
     (case base_pattern pattern of Some cells \<Rightarrow> cells | None \<Rightarrow> patternCells g)"

text \<open>Every cell of a list lies inside a grid of \<open>w\<close> by \<open>h\<close> cells.\<close>

definition cells_within :: "Cell list \<Rightarrow> int \<Rightarrow> int \<Rightarrow> bool" where
  "cells_within cs w h \<longleftrightarrow>
     list_all (\<lambda>c. 0 \<le> cell_x c \<and> cell_x c < w \<and> 0 \<le> cell_y c \<and> cell_y c < h) cs"


text \<open>The two calls by which the constructor places the pattern on the grid.\<close>

definition placePattern :: "Game \<Rightarrow> char \<Rightarrow> int \<Rightarrow> int \<Rightarrow> Game option" where
  "placePattern g pattern xOffset yOffset = do {
     g1 \<leftarrow> setPatternVector g pattern xOffset yOffset;
     initializePattern g1
   }"

text \<open>
  The rendering of section 4.5 of the specification: one row of characters per grid
  row, \<open>'X'\<close> for \<open>ALIVE\<close> and \<open>'.'\<close> for anything else, over the columns from \<open>col0\<close> up
  to but excluding \<open>col1\<close> and the rows from \<open>row0\<close> up to but excluding \<open>row1\<close>.
  \<open>unlines\<close> is the text in which every row is followed by a newline.
\<close>

definition glyph :: "int \<Rightarrow> char" where
  "glyph v = (if v = ALIVE then CHR ''X'' else CHR ''.'')"

definition render :: "Game \<Rightarrow> int \<Rightarrow> int \<Rightarrow> int \<Rightarrow> int \<Rightarrow> string list" where
  "render g row0 row1 col0 col1 =
     map (\<lambda>row. map (\<lambda>col. glyph (cell_at (grid g) col row)) [col0..col1 - 1]) [row0..row1 - 1]"

definition unlines :: "string list \<Rightarrow> string" where
  "unlines rows = concat (map (\<lambda>r. r @ [CHR 0x0A]) rows)"

text \<open>
  The grid of \<open>w\<close> columns and \<open>h\<close> rows whose cell \<open>(a, b)\<close> holds \<open>f a b\<close>, and a
  game whose live cells are exactly those of a list. The blinker at \<open>(x, y)\<close> is three
  cells in column \<open>x\<close>, from row \<open>y\<close> down (\<open>vbar\<close>); its other phase is three cells
  in row \<open>y + 1\<close> (\<open>hbar\<close>).
\<close>

definition grid_of :: "int \<Rightarrow> int \<Rightarrow> (int \<Rightarrow> int \<Rightarrow> int) \<Rightarrow> int list list" where
  "grid_of w h f = map (\<lambda>a. map (\<lambda>b. f a b) [0..h - 1]) [0..w - 1]"

definition only_alive :: "Game \<Rightarrow> Cell list \<Rightarrow> bool" where
  "only_alive g cs \<longleftrightarrow>
     grid g = grid_of (width g) (height g) (\<lambda>a b. if Cell a b \<in> set cs then ALIVE else DEAD)"

definition vbar :: "int \<Rightarrow> int \<Rightarrow> int \<Rightarrow> int \<Rightarrow> int" where
  "vbar x y a b = (if a = x \<and> (b = y \<or> b = y + 1 \<or> b = y + 2) then ALIVE else DEAD)"

definition hbar :: "int \<Rightarrow> int \<Rightarrow> int \<Rightarrow> int \<Rightarrow> int" where
  "hbar x y a b = (if b = y + 1 \<and> (a = x - 1 \<or> a = x \<or> a = x + 1) then ALIVE else DEAD)"

subsection \<open>Five games built by the constructor\<close>

text \<open>
  For 40 by 20 visible cells: the oscillator in the upper left corner of the window
  (\<open>Game(40, 20, 'o', 0, 0, 10, 100000)\<close>), a letter outside the catalogue, and the
  oscillator moved five columns to the left, into column 1 of the grid, and six
  columns to the left, onto the border. The last is
  \<open>Game(0, 0, 'o', 0, 0, 10, 100000)\<close>, with no visible cell at all.
\<close>

definition oscillator_game :: Game where
  "oscillator_game = the (new_Game 40 20 CHR ''o'' 0 0 10 100000)"

definition empty_game :: Game where
  "empty_game = the (new_Game 40 20 CHR ''x'' 0 0 10 100000)"

definition edge_game :: Game where
  "edge_game = the (new_Game 40 20 CHR ''o'' (- 5) 0 10 100000)"



section \<open>Loops and arrays\<close>

subsection \<open>Unfolding the loop, and its invariant rules\<close>

lemma for_loop_done: "n \<le> i \<Longrightarrow> for_loop i n body s = Some s"
  by (simp add: for_loop.simps)

lemma for_loop_step:
  "i < n \<Longrightarrow> for_loop i n body s = Option.bind (body i s) (for_loop (i + 1) n body)"
  by (subst for_loop.simps) (simp split: option.splits)

lemma for_loop_rule:
  assumes "I i s"
    and "\<And>j t. i \<le> j \<Longrightarrow> j < n \<Longrightarrow> I j t \<Longrightarrow> \<exists>t'. body j t = Some t' \<and> I (j + 1) t'"
  shows "\<exists>t. for_loop i n body s = Some t \<and> I (max i n) t"
  using assms
proof (induction "nat (n - i)" arbitrary: i s)
  case 0
  then have "n \<le> i" by simp
  then show ?case using 0 by (simp add: for_loop_done max_def)
next
  case (Suc k)
  then have lt: "i < n" by linarith
  from Suc.prems(2) [OF order_refl lt Suc.prems(1)]
  obtain t' where b: "body i s = Some t'" and I': "I (i + 1) t'" by blast
  have k: "k = nat (n - (i + 1))" using Suc.hyps(2) by linarith
  have "\<exists>t. for_loop (i + 1) n body t' = Some t \<and> I (max (i + 1) n) t"
  proof (rule Suc.hyps(1) [OF k I'])
    fix j t assume "i + 1 \<le> j" "j < n" "I j t"
    then show "\<exists>t'. body j t = Some t' \<and> I (j + 1) t'"
      using Suc.prems(2) [of j t] by simp
  qed
  then show ?case using lt b by (simp add: for_loop_step max_def)
qed

lemma for_loop_partial:
  assumes "for_loop i n body s = Some t" "I i s"
    and "\<And>j u u'. i \<le> j \<Longrightarrow> j < n \<Longrightarrow> I j u \<Longrightarrow> body j u = Some u' \<Longrightarrow> I (j + 1) u'"
  shows "I (max i n) t"
  using assms
proof (induction "nat (n - i)" arbitrary: i s)
  case 0
  then have "n \<le> i" by simp
  then show ?case using 0 by (simp add: for_loop_done max_def)
next
  case (Suc k)
  then have lt: "i < n" by linarith
  from Suc.prems(1) lt obtain s' where b: "body i s = Some s'"
    and r: "for_loop (i + 1) n body s' = Some t"
    by (auto simp: for_loop_step Option.bind_eq_Some_conv)
  have I': "I (i + 1) s'" using Suc.prems(3) [OF order_refl lt Suc.prems(2) b] .
  have k: "k = nat (n - (i + 1))" using Suc.hyps(2) by linarith
  have "I (max (i + 1) n) t"
  proof (rule Suc.hyps(1) [OF k r I'])
    fix j u u' assume "i + 1 \<le> j" "j < n" "I j u" "body j u = Some u'"
    then show "I (j + 1) u'" using Suc.prems(3) [of j u u'] by simp
  qed
  then show ?case using lt by (simp add: max_def)
qed

subsection \<open>Reading and writing cells\<close>

lemma load_Some: "0 \<le> i \<Longrightarrow> i < int (length a) \<Longrightarrow> load a i = Some (a ! nat i)"
  by (simp add: load_def)

lemma store_Some: "0 \<le> i \<Longrightarrow> i < int (length a) \<Longrightarrow> store a i v = Some (a[nat i := v])"
  by (simp add: store_def)

lemma dims_nth: "dims gr w h \<Longrightarrow> 0 \<le> x \<Longrightarrow> x < w \<Longrightarrow> int (length (gr ! nat x)) = h"
  by (auto simp: dims_def list_all_length)

lemma read_cell_in:
  "dims gr w h \<Longrightarrow> 0 \<le> x \<Longrightarrow> x < w \<Longrightarrow> 0 \<le> y \<Longrightarrow> y < h \<Longrightarrow>
   read_cell gr x y = Some (gr ! nat x ! nat y)"
  using dims_nth [of gr w h x] by (simp add: read_cell_def load_def dims_def)

lemma read_cell_out:
  "dims gr w h \<Longrightarrow> \<not> (0 \<le> x \<and> x < w \<and> 0 \<le> y \<and> y < h) \<Longrightarrow> read_cell gr x y = None"
  using dims_nth [of gr w h x] by (auto simp: read_cell_def load_def dims_def)

lemma read_cell_Some_iff:
  assumes "dims gr w h"
  shows "(\<exists>v. read_cell gr x y = Some v) \<longleftrightarrow> (0 \<le> x \<and> x < w \<and> 0 \<le> y \<and> y < h)"
proof (cases "0 \<le> x \<and> x < w \<and> 0 \<le> y \<and> y < h")
  case True
  then show ?thesis using read_cell_in [OF assms, of x y] by simp
next
  case False
  then show ?thesis using read_cell_out [OF assms, of x y] by simp
qed

lemma write_cell_nth:
  "0 \<le> x \<Longrightarrow> x < int (length gr) \<Longrightarrow> 0 \<le> y \<Longrightarrow> y < int (length (gr ! nat x)) \<Longrightarrow>
   write_cell gr x y v = Some (gr[nat x := (gr ! nat x)[nat y := v]])"
  by (simp add: write_cell_def load_def store_def)

lemma dims_update:
  assumes "dims gr w h" "0 \<le> x" "x < w"
  shows "dims (gr[nat x := (gr ! nat x)[nat y := v]]) w h"
  using assms by (auto simp: dims_def list_all_length nth_list_update)

lemma write_cell_in:
  assumes "dims gr w h" "0 \<le> x" "x < w" "0 \<le> y" "y < h"
  shows "\<exists>gr'. write_cell gr x y v = Some gr' \<and> dims gr' w h \<and>
           (\<forall>a b. read_cell gr' a b = (if a = x \<and> b = y then Some v else read_cell gr a b))"
proof -
  let ?gr' = "gr[nat x := (gr ! nat x)[nat y := v]]"
  have len: "int (length gr) = w" using assms(1) by (simp add: dims_def)
  have hx: "int (length (gr ! nat x)) = h" using dims_nth assms by blast
  have w: "write_cell gr x y v = Some ?gr'"
    using assms len hx by (simp add: write_cell_nth)
  have d: "dims ?gr' w h" by (rule dims_update [OF assms(1-3)])
  have "read_cell ?gr' a b = (if a = x \<and> b = y then Some v else read_cell gr a b)" for a b
  proof (cases "0 \<le> a \<and> a < w \<and> 0 \<le> b \<and> b < h")
    case True
    then have "read_cell ?gr' a b = Some (?gr' ! nat a ! nat b)"
      and "read_cell gr a b = Some (gr ! nat a ! nat b)"
      using d assms(1) by (simp_all add: read_cell_in)
    then show ?thesis using True assms len hx
      by (auto simp: nth_list_update nat_eq_iff)
  next
    case False
    then have "read_cell ?gr' a b = None" "read_cell gr a b = None"
      using d assms(1) read_cell_out by blast+
    then show ?thesis using False assms by auto
  qed
  then show ?thesis using w d by blast
qed

lemma grid_ext:
  assumes "dims gr w h" "dims gr' w h" "\<And>x y. read_cell gr x y = read_cell gr' x y"
  shows "gr = gr'"
proof (rule nth_equalityI)
  show "length gr = length gr'" using assms(1,2) by (auto simp: dims_def)
next
  fix i assume i: "i < length gr"
  then have iw: "int i < w" using assms(1) by (auto simp: dims_def)
  have l1: "int (length (gr ! i)) = h" using dims_nth [OF assms(1), of "int i"] iw by simp
  have l2: "int (length (gr' ! i)) = h" using dims_nth [OF assms(2), of "int i"] iw by simp
  show "gr ! i = gr' ! i"
  proof (rule nth_equalityI)
    show "length (gr ! i) = length (gr' ! i)" using l1 l2 by linarith
  next
    fix j assume j: "j < length (gr ! i)"
    then have jh: "int j < h" using l1 by linarith
    have "read_cell gr (int i) (int j) = Some (gr ! i ! j)"
      using read_cell_in [OF assms(1), of "int i" "int j"] iw jh by simp
    moreover have "read_cell gr' (int i) (int j) = Some (gr' ! i ! j)"
      using read_cell_in [OF assms(2), of "int i" "int j"] iw jh by simp
    ultimately show "gr ! i ! j = gr' ! i ! j" using assms(3) [of "int i" "int j"] by simp
  qed
qed

subsection \<open>Binary grids\<close>

lemma binary_read:
  assumes "binary gr" "read_cell gr x y = Some v"
  shows "v = DEAD \<or> v = ALIVE"
proof -
  from assms(2) have x: "0 \<le> x" "nat x < length gr" and y: "0 \<le> y" "nat y < length (gr ! nat x)"
    and v: "v = gr ! nat x ! nat y"
    by (auto simp: read_cell_def load_def Option.bind_eq_Some_conv split: if_splits)
  from assms(1) x(2) have "list_all (\<lambda>v. v = DEAD \<or> v = ALIVE) (gr ! nat x)"
    by (simp add: binary_def list_all_length)
  then show ?thesis using y(2) v by (simp add: list_all_length)
qed

lemma binaryI:
  assumes "dims gr w h" "\<And>x y v. read_cell gr x y = Some v \<Longrightarrow> v = DEAD \<or> v = ALIVE"
  shows "binary gr"
  unfolding binary_def list_all_length
proof (intro allI impI)
  fix i j assume i: "i < length gr" and j: "j < length (gr ! i)"
  have iw: "int i < w" using assms(1) i by (auto simp: dims_def)
  have "int (length (gr ! i)) = h" using dims_nth [OF assms(1), of "int i"] iw by simp
  then have jh: "int j < h" using j by linarith
  have "read_cell gr (int i) (int j) = Some (gr ! i ! j)"
    using read_cell_in [OF assms(1), of "int i" "int j"] iw jh by simp
  then show "gr ! i ! j = DEAD \<or> gr ! i ! j = ALIVE" by (rule assms(2))
qed

lemma cell_at_read:
  "dims gr w h \<Longrightarrow> 0 \<le> x \<Longrightarrow> x < w \<Longrightarrow> 0 \<le> y \<Longrightarrow> y < h \<Longrightarrow>
   read_cell gr x y = Some (cell_at gr x y)"
  by (simp add: read_cell_in cell_at_def)

lemma binary_cell_at:
  "dims gr w h \<Longrightarrow> binary gr \<Longrightarrow> 0 \<le> x \<Longrightarrow> x < w \<Longrightarrow> 0 \<le> y \<Longrightarrow> y < h \<Longrightarrow>
   cell_at gr x y = DEAD \<or> cell_at gr x y = ALIVE"
  using binary_read [of gr x y "cell_at gr x y"] cell_at_read [of gr w h x y] by simp

subsection \<open>Loops that change only the grid of a game\<close>

lemma for_loop_grid:
  assumes "\<And>j gr. i \<le> j \<Longrightarrow> j < n \<Longrightarrow>
             body j (g\<lparr>grid := gr\<rparr>) = map_option (\<lambda>gr'. g\<lparr>grid := gr'\<rparr>) (f j gr)"
  shows "for_loop i n body (g\<lparr>grid := gr\<rparr>) =
         map_option (\<lambda>gr'. g\<lparr>grid := gr'\<rparr>) (for_loop i n f gr)"
  using assms
proof (induction "nat (n - i)" arbitrary: i gr)
  case 0
  then have "n \<le> i" by simp
  then show ?case by (simp add: for_loop_done)
next
  case (Suc k)
  then have lt: "i < n" by linarith
  have k: "k = nat (n - (i + 1))" using Suc.hyps(2) by linarith
  have b: "body i (g\<lparr>grid := gr\<rparr>) = map_option (\<lambda>gr'. g\<lparr>grid := gr'\<rparr>) (f i gr)"
    using Suc.prems [OF order_refl lt] .
  show ?case
  proof (cases "f i gr")
    case None
    then show ?thesis using lt b by (simp add: for_loop_step)
  next
    case (Some gr1)
    have "for_loop (i + 1) n body (g\<lparr>grid := gr1\<rparr>) =
          map_option (\<lambda>gr'. g\<lparr>grid := gr'\<rparr>) (for_loop (i + 1) n f gr1)"
    proof (rule Suc.hyps(1) [OF k])
      fix j gr' assume "i + 1 \<le> j" "j < n"
      then show "body j (g\<lparr>grid := gr'\<rparr>) = map_option (\<lambda>gr'. g\<lparr>grid := gr'\<rparr>) (f j gr')"
        using Suc.prems [of j gr'] by simp
    qed
    then show ?thesis using lt b Some by (simp add: for_loop_step)
  qed
qed

text \<open>A nested sweep over a rectangle that writes one value per cell.\<close>

lemma sweep_row:
  assumes d: "dims gr w h" and x: "0 \<le> x" "x < w" and y: "0 \<le> y0" "y1 \<le> h"
    and body: "\<And>y s. y0 \<le> y \<Longrightarrow> y < y1 \<Longrightarrow> dims s w h \<Longrightarrow> body y s = write_cell s x y (F y)"
  shows "\<exists>gr'. for_loop y0 y1 body gr = Some gr' \<and> dims gr' w h \<and>
           (\<forall>a b. read_cell gr' a b =
              (if a = x \<and> y0 \<le> b \<and> b < y1 then Some (F b) else read_cell gr a b))"
proof -
  define J where "J y s \<longleftrightarrow> dims s w h \<and>
     (\<forall>a b. read_cell s a b = (if a = x \<and> y0 \<le> b \<and> b < y then Some (F b) else read_cell gr a b))"
    for y s
  have J0: "J y0 gr" using d by (auto simp: J_def)
  have step: "\<exists>t'. body j t = Some t' \<and> J (j + 1) t'" if "y0 \<le> j" "j < y1" "J j t" for j t
  proof -
    have dt: "dims t w h" using that(3) by (simp add: J_def)
    have j: "0 \<le> j" "j < h" using that y by linarith+
    from write_cell_in [OF dt x j, of "F j"] obtain t' where
      w: "write_cell t x j (F j) = Some t'" and dt': "dims t' w h"
      and r: "\<forall>a b. read_cell t' a b = (if a = x \<and> b = j then Some (F j) else read_cell t a b)"
      by blast
    have "body j t = Some t'" using body [OF that(1,2) dt] w by simp
    moreover have "J (j + 1) t'"
      unfolding J_def using dt' r that(3) that(1) by (auto simp: J_def)
    ultimately show ?thesis by blast
  qed
  from for_loop_rule [of J y0 gr y1 body, OF J0 step]
  obtain t where t: "for_loop y0 y1 body gr = Some t" and Jt: "J (max y0 y1) t" by blast
  have "read_cell t a b = (if a = x \<and> y0 \<le> b \<and> b < y1 then Some (F b) else read_cell gr a b)" for a b
    using Jt by (auto simp: J_def max_def)
  then show ?thesis using t Jt by (auto simp: J_def)
qed

lemma sweep:
  assumes d: "dims gr w h" and xb: "0 \<le> x0" "x1 \<le> w" and yb: "0 \<le> y0" "y1 \<le> h"
    and body: "\<And>x y s. x0 \<le> x \<Longrightarrow> x < x1 \<Longrightarrow> y0 \<le> y \<Longrightarrow> y < y1 \<Longrightarrow> dims s w h \<Longrightarrow>
                 body x y s = write_cell s x y (F x y)"
  shows "\<exists>gr'. for_loop x0 x1 (\<lambda>x s. for_loop y0 y1 (body x) s) gr = Some gr' \<and> dims gr' w h \<and>
           (\<forall>a b. read_cell gr' a b =
              (if x0 \<le> a \<and> a < x1 \<and> y0 \<le> b \<and> b < y1 then Some (F a b) else read_cell gr a b))"
proof -
  define I where "I x s \<longleftrightarrow> dims s w h \<and>
     (\<forall>a b. read_cell s a b =
        (if x0 \<le> a \<and> a < x \<and> y0 \<le> b \<and> b < y1 then Some (F a b) else read_cell gr a b))"
    for x s
  have I0: "I x0 gr" using d by (auto simp: I_def)
  have step: "\<exists>t'. for_loop y0 y1 (body j) t = Some t' \<and> I (j + 1) t'"
    if "x0 \<le> j" "j < x1" "I j t" for j t
  proof -
    have dt: "dims t w h" using that(3) by (simp add: I_def)
    have j: "0 \<le> j" "j < w" using that xb by linarith+
    have b: "body j y s = write_cell s j y (F j y)" if "y0 \<le> y" "y < y1" "dims s w h" for y s
      using body [OF \<open>x0 \<le> j\<close> \<open>j < x1\<close> that] .
    from sweep_row [OF dt j yb, of "body j" "F j", OF b]
    obtain t' where l: "for_loop y0 y1 (body j) t = Some t'" and dt': "dims t' w h"
      and r: "\<forall>a b. read_cell t' a b =
                (if a = j \<and> y0 \<le> b \<and> b < y1 then Some (F j b) else read_cell t a b)"
      by blast
    have "I (j + 1) t'"
      unfolding I_def using dt' r that(3) that(1) by (auto simp: I_def)
    then show ?thesis using l by blast
  qed
  from for_loop_rule [of I x0 gr x1 "\<lambda>x s. for_loop y0 y1 (body x) s", OF I0 step]
  obtain t where t: "for_loop x0 x1 (\<lambda>x s. for_loop y0 y1 (body x) s) gr = Some t"
    and It: "I (max x0 x1) t" by blast
  have "read_cell t a b =
     (if x0 \<le> a \<and> a < x1 \<and> y0 \<le> b \<and> b < y1 then Some (F a b) else read_cell gr a b)" for a b
    using It by (auto simp: I_def max_def)
  then show ?thesis using t It by (auto simp: I_def)
qed

section \<open>The methods, one by one\<close>

subsection \<open>clearGrid\<close>

lemma clearGrid_grid:
  "clearGrid g = map_option (\<lambda>gr. g\<lparr>grid := gr\<rparr>)
     (for_loop 0 (width g) (\<lambda>col s. for_loop 0 (height g)
        (\<lambda>row s'. write_cell s' col row DEAD) s) (grid g))"
proof -
  let ?inner = "\<lambda>col row (g2 :: Game). do {
         gr \<leftarrow> write_cell (grid g2) col row DEAD;
         Some (g2\<lparr>grid := gr\<rparr>) }"
  have inner: "for_loop 0 (height (g\<lparr>grid := gr\<rparr>)) (?inner col) (g\<lparr>grid := gr\<rparr>) =
        map_option (\<lambda>gr'. g\<lparr>grid := gr'\<rparr>)
          (for_loop 0 (height g) (\<lambda>row s'. write_cell s' col row DEAD) gr)" for col gr
  proof -
    have "for_loop 0 (height g) (?inner col) (g\<lparr>grid := gr\<rparr>) =
        map_option (\<lambda>gr'. g\<lparr>grid := gr'\<rparr>)
          (for_loop 0 (height g) (\<lambda>row s'. write_cell s' col row DEAD) gr)"
      by (rule for_loop_grid) (simp split: Option.bind_split)
    then show ?thesis by simp
  qed
  have "for_loop 0 (width g) (\<lambda>col g1. for_loop 0 (height g1) (?inner col) g1) (g\<lparr>grid := grid g\<rparr>) =
        map_option (\<lambda>gr'. g\<lparr>grid := gr'\<rparr>)
          (for_loop 0 (width g) (\<lambda>col s. for_loop 0 (height g)
             (\<lambda>row s'. write_cell s' col row DEAD) s) (grid g))"
    by (rule for_loop_grid) (rule inner)
  then show ?thesis by (simp add: clearGrid_def)
qed

lemma clearGrid_spec:
  assumes "well_formed g"
  shows "\<exists>gr. clearGrid g = Some (g\<lparr>grid := gr\<rparr>) \<and> dims gr (width g) (height g) \<and>
           (\<forall>a b. read_cell gr a b =
              (if 0 \<le> a \<and> a < width g \<and> 0 \<le> b \<and> b < height g then Some DEAD else None))"
proof -
  have d: "dims (grid g) (width g) (height g)" using assms by (simp add: well_formed_def)
  from sweep [OF d, of 0 "width g" 0 "height g" "\<lambda>x y s. write_cell s x y DEAD" "\<lambda>x y. DEAD"]
  obtain gr where l: "for_loop 0 (width g) (\<lambda>col s. for_loop 0 (height g)
        (\<lambda>row s'. write_cell s' col row DEAD) s) (grid g) = Some gr"
    and dg: "dims gr (width g) (height g)"
    and r: "\<forall>a b. read_cell gr a b =
              (if 0 \<le> a \<and> a < width g \<and> 0 \<le> b \<and> b < height g then Some DEAD
               else read_cell (grid g) a b)"
    by auto
  have "read_cell gr a b =
      (if 0 \<le> a \<and> a < width g \<and> 0 \<le> b \<and> b < height g then Some DEAD else None)" for a b
    using r read_cell_out [OF d, of a b] by simp
  then show ?thesis using l dg by (auto simp: clearGrid_grid)
qed

subsection \<open>determineFate\<close>

lemma add_int_small:
  "0 \<le> a \<Longrightarrow> a \<le> 8 \<Longrightarrow> 0 \<le> b \<Longrightarrow> b \<le> 1 \<Longrightarrow> add_int a b = Some (a + b)"
  by (simp add: add_int_def INT_MIN_def INT_MAX_def)

lemma cell_at_bounds:
  assumes "dims gr w h" "binary gr" "0 \<le> x" "x < w" "0 \<le> y" "y < h"
  shows "0 \<le> cell_at gr x y \<and> cell_at gr x y \<le> 1"
  using binary_cell_at [OF assms] by auto

lemma totalLiveNeighbors_spec:
  assumes d: "dims (grid g) w h" and b: "binary (grid g)"
    and x: "1 \<le> x" "x < w - 1" and y: "1 \<le> y" "y < h - 1"
  shows "totalLiveNeighbors g x y = Some (neighborSum (grid g) x y)"
    and "0 \<le> neighborSum (grid g) x y" and "neighborSum (grid g) x y \<le> 8"
proof -
  let ?c = "cell_at (grid g)"
  have r: "read_cell (grid g) a c = Some (?c a c)"
    if "x - 1 \<le> a" "a \<le> x + 1" "y - 1 \<le> c" "c \<le> y + 1" for a c
    using that x y by (intro cell_at_read [OF d]) linarith+
  have c: "0 \<le> ?c a c \<and> ?c a c \<le> 1"
    if "x - 1 \<le> a" "a \<le> x + 1" "y - 1 \<le> c" "c \<le> y + 1" for a c
    using that x y by (intro cell_at_bounds [OF d b]) linarith+
  have c1: "0 \<le> ?c (x - 1) (y - 1) \<and> ?c (x - 1) (y - 1) \<le> 1" by (rule c) simp_all
  have c2: "0 \<le> ?c (x - 1) y \<and> ?c (x - 1) y \<le> 1" by (rule c) simp_all
  have c3: "0 \<le> ?c (x - 1) (y + 1) \<and> ?c (x - 1) (y + 1) \<le> 1" by (rule c) simp_all
  have c4: "0 \<le> ?c x (y - 1) \<and> ?c x (y - 1) \<le> 1" by (rule c) simp_all
  have c5: "0 \<le> ?c x (y + 1) \<and> ?c x (y + 1) \<le> 1" by (rule c) simp_all
  have c6: "0 \<le> ?c (x + 1) (y - 1) \<and> ?c (x + 1) (y - 1) \<le> 1" by (rule c) simp_all
  have c7: "0 \<le> ?c (x + 1) y \<and> ?c (x + 1) y \<le> 1" by (rule c) simp_all
  have c8: "0 \<le> ?c (x + 1) (y + 1) \<and> ?c (x + 1) (y + 1) \<le> 1" by (rule c) simp_all
  show "0 \<le> neighborSum (grid g) x y" and "neighborSum (grid g) x y \<le> 8"
    using c1 c2 c3 c4 c5 c6 c7 c8 unfolding neighborSum_def by linarith+
  have s1: "add_int (?c (x - 1) (y - 1)) (?c (x - 1) y) = Some (?c (x - 1) (y - 1) + ?c (x - 1) y)"
    using c1 c2 by (intro add_int_small) linarith+
  have s2: "add_int (?c (x - 1) (y - 1) + ?c (x - 1) y) (?c (x - 1) (y + 1)) =
      Some (?c (x - 1) (y - 1) + ?c (x - 1) y + ?c (x - 1) (y + 1))"
    using c1 c2 c3 by (intro add_int_small) linarith+
  have s3: "add_int (?c (x - 1) (y - 1) + ?c (x - 1) y + ?c (x - 1) (y + 1)) (?c x (y - 1)) =
      Some (?c (x - 1) (y - 1) + ?c (x - 1) y + ?c (x - 1) (y + 1) + ?c x (y - 1))"
    using c1 c2 c3 c4 by (intro add_int_small) linarith+
  have s4: "add_int (?c (x - 1) (y - 1) + ?c (x - 1) y + ?c (x - 1) (y + 1) + ?c x (y - 1))
        (?c x (y + 1)) =
      Some (?c (x - 1) (y - 1) + ?c (x - 1) y + ?c (x - 1) (y + 1) + ?c x (y - 1) + ?c x (y + 1))"
    using c1 c2 c3 c4 c5 by (intro add_int_small) linarith+
  have s5: "add_int (?c (x - 1) (y - 1) + ?c (x - 1) y + ?c (x - 1) (y + 1) + ?c x (y - 1) +
         ?c x (y + 1)) (?c (x + 1) (y - 1)) =
      Some (?c (x - 1) (y - 1) + ?c (x - 1) y + ?c (x - 1) (y + 1) + ?c x (y - 1) + ?c x (y + 1) +
         ?c (x + 1) (y - 1))"
    using c1 c2 c3 c4 c5 c6 by (intro add_int_small) linarith+
  have s6: "add_int (?c (x - 1) (y - 1) + ?c (x - 1) y + ?c (x - 1) (y + 1) + ?c x (y - 1) +
         ?c x (y + 1) + ?c (x + 1) (y - 1)) (?c (x + 1) y) =
      Some (?c (x - 1) (y - 1) + ?c (x - 1) y + ?c (x - 1) (y + 1) + ?c x (y - 1) + ?c x (y + 1) +
         ?c (x + 1) (y - 1) + ?c (x + 1) y)"
    using c1 c2 c3 c4 c5 c6 c7 by (intro add_int_small) linarith+
  have s7: "add_int (?c (x - 1) (y - 1) + ?c (x - 1) y + ?c (x - 1) (y + 1) + ?c x (y - 1) +
         ?c x (y + 1) + ?c (x + 1) (y - 1) + ?c (x + 1) y) (?c (x + 1) (y + 1)) =
      Some (neighborSum (grid g) x y)"
    unfolding neighborSum_def
    using c1 c2 c3 c4 c5 c6 c7 c8 by (intro add_int_small) linarith+
  show "totalLiveNeighbors g x y = Some (neighborSum (grid g) x y)"
    unfolding totalLiveNeighbors_def
    by (simp add: r s1 s2 s3 s4 s5 s6 s7)
qed

lemma determineFate_spec:
  assumes d: "dims (grid g) w h" and b: "binary (grid g)"
    and x: "1 \<le> x" "x < w - 1" and y: "1 \<le> y" "y < h - 1"
  shows "determineFate g (Cell x y) ng =
         write_cell ng x y (nextState (cell_at (grid g) x y) (neighborSum (grid g) x y))"
proof -
  have t: "totalLiveNeighbors g x y = Some (neighborSum (grid g) x y)"
    using totalLiveNeighbors_spec(1) [OF d b x y] .
  have r: "read_cell (grid g) x y = Some (cell_at (grid g) x y)"
    using x y by (intro cell_at_read [OF d]) linarith+
  show ?thesis
    by (auto simp: determineFate_def t r nextState_def)
qed

subsection \<open>tick\<close>

lemma fill_column:
  assumes c: "0 \<le> col" "nat col < length ng" and h: "0 \<le> h" and len: "length (ng ! nat col) = nat h"
  shows "for_loop 0 h (\<lambda>row s. write_cell s col row DEAD) ng =
         Some (ng[nat col := replicate (nat h) DEAD])"
proof -
  define J where "J row s \<longleftrightarrow> length s = length ng \<and> length (s ! nat col) = nat h \<and>
      (\<forall>i < length ng. i \<noteq> nat col \<longrightarrow> s ! i = ng ! i) \<and>
      (\<forall>j < nat row. s ! nat col ! j = DEAD)" for row s
  have J0: "J 0 ng" using len by (simp add: J_def)
  have step: "\<exists>t'. write_cell t col j DEAD = Some t' \<and> J (j + 1) t'"
    if "0 \<le> j" "j < h" "J j t" for j t
  proof -
    let ?t' = "t[nat col := (t ! nat col)[nat j := DEAD]]"
    have lt: "length t = length ng" "length (t ! nat col) = nat h"
      using that(3) by (simp_all add: J_def)
    have w: "write_cell t col j DEAD = Some ?t'"
      using c that lt by (intro write_cell_nth) simp_all
    have "J (j + 1) ?t'"
      unfolding J_def
    proof (intro conjI allI impI)
      show "length ?t' = length ng" using lt by simp
      show "length (?t' ! nat col) = nat h" using lt c by simp
    next
      fix i assume "i < length ng" "i \<noteq> nat col"
      then show "?t' ! i = ng ! i" using that(3) by (simp add: J_def)
    next
      fix k assume k: "k < nat (j + 1)"
      have "?t' ! nat col ! k = (t ! nat col)[nat j := DEAD] ! k" using lt c by simp
      also have "\<dots> = DEAD"
      proof (cases "k = nat j")
        case True
        then show ?thesis using lt that by simp
      next
        case False
        then have "k < nat j" using k that(1) by linarith
        then show ?thesis using that(3) False by (simp add: J_def)
      qed
      finally show "?t' ! nat col ! k = DEAD" .
    qed
    then show ?thesis using w by blast
  qed
  from for_loop_rule [of J 0 ng h "\<lambda>row s. write_cell s col row DEAD", OF J0 step]
  obtain t where t: "for_loop 0 h (\<lambda>row s. write_cell s col row DEAD) ng = Some t"
    and Jt: "J (max 0 h) t" by blast
  have Jh: "J h t" using Jt h by (simp add: max_def)
  have "t ! nat col = replicate (nat h) DEAD"
    using Jh by (intro nth_equalityI) (simp_all add: J_def)
  then have "t = ng[nat col := replicate (nat h) DEAD]"
    using Jh c by (intro nth_equalityI) (auto simp: J_def nth_list_update)
  then show ?thesis using t by simp
qed

lemma fresh_dead_grid:
  assumes w: "0 \<le> w" and hw: "0 < w \<Longrightarrow> 0 \<le> h"
  shows "for_loop 0 w (\<lambda>col ng. do {
             column \<leftarrow> new_array h indeterminate;
             ng1 \<leftarrow> store ng col column;
             for_loop 0 h (\<lambda>row ng2. write_cell ng2 col row DEAD) ng1
           }) (replicate (nat w) []) = Some (replicate (nat w) (replicate (nat h) DEAD))"
proof -
  let ?body = "\<lambda>col ng. do {
             column \<leftarrow> new_array h indeterminate;
             ng1 \<leftarrow> store ng col column;
             for_loop 0 h (\<lambda>row ng2. write_cell ng2 col row DEAD) ng1 }"
  define I where "I col s \<longleftrightarrow> length s = nat w \<and>
      (\<forall>i < nat col. s ! i = replicate (nat h) DEAD)" for col s
  have I0: "I 0 (replicate (nat w) [])" by (simp add: I_def)
  have step: "\<exists>t'. ?body j t = Some t' \<and> I (j + 1) t'" if "0 \<le> j" "j < w" "I j t" for j t
  proof -
    have h: "0 \<le> h" using hw that by linarith
    have lt: "length t = nat w" using that(3) by (simp add: I_def)
    let ?t1 = "t[nat j := replicate (nat h) indeterminate]"
    have st: "store t j (replicate (nat h) indeterminate) = Some ?t1"
      using that lt by (intro store_Some) simp_all
    have jl: "nat j < length ?t1" using that lt by simp
    have "length (?t1 ! nat j) = nat h" using that lt by simp
    from fill_column [OF that(1) jl h this]
    have f: "for_loop 0 h (\<lambda>row s. write_cell s j row DEAD) ?t1 =
          Some (t[nat j := replicate (nat h) DEAD])" by simp
    have b: "?body j t = Some (t[nat j := replicate (nat h) DEAD])"
      using h st f by (simp add: new_array_def)
    have "I (j + 1) (t[nat j := replicate (nat h) DEAD])"
      unfolding I_def
    proof (intro conjI allI impI)
      show "length (t[nat j := replicate (nat h) DEAD]) = nat w" using lt by simp
    next
      fix i assume i: "i < nat (j + 1)"
      show "t[nat j := replicate (nat h) DEAD] ! i = replicate (nat h) DEAD"
      proof (cases "i = nat j")
        case True
        then show ?thesis using that lt by simp
      next
        case False
        then have "i < nat j" using i that(1) by linarith
        then show ?thesis using that(3) False by (simp add: I_def)
      qed
    qed
    then show ?thesis using b by blast
  qed
  from for_loop_rule [of I 0 "replicate (nat w) []" w ?body, OF I0 step]
  obtain t where t: "for_loop 0 w ?body (replicate (nat w) []) = Some t"
    and It: "I (max 0 w) t" by blast
  have "I w t" using It w by (simp add: max_def)
  then have "t = replicate (nat w) (replicate (nat h) DEAD)"
    by (intro nth_equalityI) (simp_all add: I_def)
  then show ?thesis using t by simp
qed

lemma dims_replicate:
  "0 \<le> w \<Longrightarrow> (0 < w \<Longrightarrow> 0 \<le> h) \<Longrightarrow> dims (replicate (nat w) (replicate (nat h) v)) w h"
  by (auto simp: dims_def list_all_length)

lemma dims_height: "dims gr w h \<Longrightarrow> 0 < w \<Longrightarrow> 0 \<le> h"
  using dims_nth [of gr w h 0] by simp

lemma copy_back_grid:
  "for_loop 1 (width g - 1) (\<lambda>x g1.
       for_loop 1 (height g1 - 1) (\<lambda>y g2. do {
         v \<leftarrow> read_cell ng x y;
         gr \<leftarrow> write_cell (grid g2) x y v;
         Some (g2\<lparr>grid := gr\<rparr>)
       }) g1) (g :: Game) =
   map_option (\<lambda>gr. g\<lparr>grid := gr\<rparr>)
     (for_loop 1 (width g - 1) (\<lambda>x s. for_loop 1 (height g - 1)
        (\<lambda>y s'. do { v \<leftarrow> read_cell ng x y; write_cell s' x y v }) s) (grid g))"
proof -
  let ?inner = "\<lambda>x y (g2 :: Game). do {
         v \<leftarrow> read_cell ng x y;
         gr \<leftarrow> write_cell (grid g2) x y v;
         Some (g2\<lparr>grid := gr\<rparr>) }"
  have inner: "for_loop 1 (height (g\<lparr>grid := gr\<rparr>) - 1) (?inner x) (g\<lparr>grid := gr\<rparr>) =
        map_option (\<lambda>gr'. g\<lparr>grid := gr'\<rparr>)
          (for_loop 1 (height g - 1)
             (\<lambda>y s'. do { v \<leftarrow> read_cell ng x y; write_cell s' x y v }) gr)" for x gr
  proof -
    have "for_loop 1 (height g - 1) (?inner x) (g\<lparr>grid := gr\<rparr>) =
        map_option (\<lambda>gr'. g\<lparr>grid := gr'\<rparr>)
          (for_loop 1 (height g - 1)
             (\<lambda>y s'. do { v \<leftarrow> read_cell ng x y; write_cell s' x y v }) gr)"
      by (rule for_loop_grid) (simp split: Option.bind_split)
    then show ?thesis by simp
  qed
  have "for_loop 1 (width g - 1) (\<lambda>x g1. for_loop 1 (height g1 - 1) (?inner x) g1)
          (g\<lparr>grid := grid g\<rparr>) =
        map_option (\<lambda>gr'. g\<lparr>grid := gr'\<rparr>)
          (for_loop 1 (width g - 1) (\<lambda>x s. for_loop 1 (height g - 1)
             (\<lambda>y s'. do { v \<leftarrow> read_cell ng x y; write_cell s' x y v }) s) (grid g))"
    by (rule for_loop_grid) (rule inner)
  then show ?thesis by simp
qed

lemma tick_spec:
  assumes wf: "well_formed g" and b: "binary (grid g)"
  shows "\<exists>gr. tick g = Some (g\<lparr>grid := gr\<rparr>) \<and> dims gr (width g) (height g) \<and>
           (\<forall>a b. read_cell gr a b =
              (if interior g a b
               then Some (nextState (cell_at (grid g) a b) (neighborSum (grid g) a b))
               else read_cell (grid g) a b))"
proof -
  let ?w = "width g" and ?h = "height g"
  let ?F = "\<lambda>x y. nextState (cell_at (grid g) x y) (neighborSum (grid g) x y)"
  have d: "dims (grid g) ?w ?h" using wf by (simp add: well_formed_def)
  have w0: "0 \<le> ?w" using d by (simp add: dims_def)
  have h0: "0 < ?w \<Longrightarrow> 0 \<le> ?h" using d by (rule dims_height)
  let ?ng0 = "replicate (nat ?w) (replicate (nat ?h) DEAD)"
  have d0: "dims ?ng0 ?w ?h" using w0 h0 by (rule dims_replicate)
  have fate: "determineFate g (Cell x y) s = write_cell s x y (?F x y)"
    if "1 \<le> x" "x < ?w - 1" "1 \<le> y" "y < ?h - 1" "dims s ?w ?h" for x y s
    using determineFate_spec [OF d b that(1-4)] .
  from sweep [OF d0, of 1 "?w - 1" 1 "?h - 1" "\<lambda>x y s. determineFate g (Cell x y) s" ?F]
  obtain ng where l2: "for_loop 1 (?w - 1) (\<lambda>x s. for_loop 1 (?h - 1)
        (\<lambda>y s'. determineFate g (Cell x y) s') s) ?ng0 = Some ng"
    and dn: "dims ng ?w ?h"
    and rn: "\<forall>a b. read_cell ng a b =
              (if 1 \<le> a \<and> a < ?w - 1 \<and> 1 \<le> b \<and> b < ?h - 1 then Some (?F a b)
               else read_cell ?ng0 a b)"
    using fate by auto
  have copy: "do { v \<leftarrow> read_cell ng x y; write_cell s x y v } = write_cell s x y (?F x y)"
    if "1 \<le> x" "x < ?w - 1" "1 \<le> y" "y < ?h - 1" "dims s ?w ?h" for x y s
    using rn that by simp
  from sweep [OF d, of 1 "?w - 1" 1 "?h - 1"
      "\<lambda>x y s. do { v \<leftarrow> read_cell ng x y; write_cell s x y v }" ?F]
  obtain gr where l3: "for_loop 1 (?w - 1) (\<lambda>x s. for_loop 1 (?h - 1)
        (\<lambda>y s'. do { v \<leftarrow> read_cell ng x y; write_cell s' x y v }) s) (grid g) = Some gr"
    and dg: "dims gr ?w ?h"
    and rg: "\<forall>a b. read_cell gr a b =
              (if 1 \<le> a \<and> a < ?w - 1 \<and> 1 \<le> b \<and> b < ?h - 1 then Some (?F a b)
               else read_cell (grid g) a b)"
    using copy by auto
  have p0: "new_array ?w ([] :: int list) = Some (replicate (nat ?w) [])"
    using w0 by (simp add: new_array_def)
  have "tick g = Some (g\<lparr>grid := gr\<rparr>)"
    unfolding tick_def
    by (simp add: p0 fresh_dead_grid [OF w0 h0] l2 copy_back_grid l3)
  then show ?thesis using dg rg by (auto simp: interior_def)
qed

subsection \<open>setPatternVector\<close>

lemma shift_step:
  "n < length cs \<Longrightarrow>
   (map f (take n cs) @ drop n cs)[n := f (cs ! n)] = map f (take (Suc n) cs) @ drop (Suc n) cs"
  by (simp add: take_Suc_conv_app_nth list_update_append flip: Cons_nth_drop_Suc)

lemma shift_loop:
  assumes dx: "cs \<noteq> [] \<Longrightarrow> add_int (buffer g) xo = Some dx"
    and dy: "cs \<noteq> [] \<Longrightarrow> add_int (buffer g) yo = Some dy"
    and ok: "\<And>c. c \<in> set cs \<Longrightarrow> add_int (cell_x c) dx = Some (cell_x c + dx) \<and>
                              add_int (cell_y c) dy = Some (cell_y c + dy)"
  shows "for_loop 0 (int (length cs)) (shift_cell xo yo) (g\<lparr>patternCells := cs\<rparr>) =
         Some (g\<lparr>patternCells := map (shift_by dx dy) cs\<rparr>)"
proof -
  define I where "I j s \<longleftrightarrow>
     s = g\<lparr>patternCells := map (shift_by dx dy) (take (nat j) cs) @ drop (nat j) cs\<rparr>" for j s
  have I0: "I 0 (g\<lparr>patternCells := cs\<rparr>)" by (simp add: I_def)
  have step: "\<exists>t'. shift_cell xo yo j t = Some t' \<and> I (j + 1) t'"
    if "0 \<le> j" "j < int (length cs)" "I j t" for j t
  proof -
    let ?n = "nat j"
    have n: "?n < length cs" using that by linarith
    have ne: "cs \<noteq> []" using n by auto
    have t: "t = g\<lparr>patternCells := map (shift_by dx dy) (take ?n cs) @ drop ?n cs\<rparr>"
      using that(3) by (simp add: I_def)
    have len: "length (patternCells t) = length cs" using n by (simp add: t)
    have ld: "load (patternCells t) j = Some (cs ! ?n)"
      using that n len by (simp add: load_def t nth_append)
    have c: "cs ! ?n \<in> set cs" using n by simp
    have st: "store (patternCells t) j (shift_by dx dy (cs ! ?n)) =
        Some (map (shift_by dx dy) (take (Suc ?n) cs) @ drop (Suc ?n) cs)"
      using that n len shift_step [OF n, of "shift_by dx dy"]
      by (simp add: store_def t)
    have "shift_cell xo yo j t =
        Some (t\<lparr>patternCells := map (shift_by dx dy) (take (Suc ?n) cs) @ drop (Suc ?n) cs\<rparr>)"
      using ld dx [OF ne] dy [OF ne] ok [OF c] st
      by (simp add: shift_cell_def t shift_by_def)
    moreover have "nat (j + 1) = Suc ?n" using that(1) by simp
    ultimately show ?thesis by (simp add: I_def t)
  qed
  from for_loop_rule [of I 0 "g\<lparr>patternCells := cs\<rparr>" "int (length cs)" "shift_cell xo yo",
      OF I0 step]
  obtain t where l: "for_loop 0 (int (length cs)) (shift_cell xo yo) (g\<lparr>patternCells := cs\<rparr>) = Some t"
    and It: "I (max 0 (int (length cs))) t" by blast
  have "I (int (length cs)) t" using It by (simp add: max_def)
  then show ?thesis using l by (simp add: I_def)
qed

lemma setPatternVector_start:
  "setPatternVector g pattern xo yo =
   for_loop 0 (int (length (start_cells g pattern))) (shift_cell xo yo)
     (g\<lparr>patternCells := start_cells g pattern\<rparr>)"
  by (simp add: setPatternVector_def start_cells_def Let_def split: option.splits)

lemma base_pattern_range:
  assumes "base_pattern p = Some cs" "c \<in> set cs"
  shows "0 \<le> cell_x c \<and> cell_x c \<le> 35 \<and> 0 \<le> cell_y c \<and> cell_y c \<le> 8"
  using assms by (auto simp: base_pattern_def split: if_splits)

subsection \<open>initializePattern\<close>

lemma write_cell_SomeD:
  assumes "dims gr w h" "write_cell gr x y v = Some gr'"
  shows "0 \<le> x \<and> x < w \<and> 0 \<le> y \<and> y < h"
proof -
  from assms(2) have x: "0 \<le> x" "x < int (length gr)" and y: "0 \<le> y" "y < int (length (gr ! nat x))"
    by (auto simp: write_cell_def load_def store_def Option.bind_eq_Some_conv split: if_splits)
  have xw: "x < w" using x assms(1) by (simp add: dims_def)
  then have "int (length (gr ! nat x)) = h" using dims_nth [OF assms(1) x(1)] by simp
  then show ?thesis using x y xw by simp
qed

lemma initializePattern_grid:
  "initializePattern g = map_option (\<lambda>gr. g\<lparr>grid := gr\<rparr>)
     (for_loop 0 (int (length (patternCells g)))
        (\<lambda>j s. do { cur \<leftarrow> load (patternCells g) j;
                    write_cell s (cell_x cur) (cell_y cur) ALIVE }) (grid g))"
proof -
  let ?body = "\<lambda>cell (g1 :: Game). do {
       cur \<leftarrow> load (patternCells g1) cell;
       gr \<leftarrow> write_cell (grid g1) (cell_x cur) (cell_y cur) ALIVE;
       Some (g1\<lparr>grid := gr\<rparr>) }"
  have "for_loop 0 (int (length (patternCells g))) ?body (g\<lparr>grid := grid g\<rparr>) =
      map_option (\<lambda>gr. g\<lparr>grid := gr\<rparr>)
        (for_loop 0 (int (length (patternCells g)))
          (\<lambda>j s. do { cur \<leftarrow> load (patternCells g) j;
                      write_cell s (cell_x cur) (cell_y cur) ALIVE }) (grid g))"
    by (rule for_loop_grid) (simp split: Option.bind_split)
  then show ?thesis by (simp add: initializePattern_def Let_def)
qed

lemma cells_within_nth:
  "cells_within cs w h \<Longrightarrow> n < length cs \<Longrightarrow>
   0 \<le> cell_x (cs ! n) \<and> cell_x (cs ! n) < w \<and> 0 \<le> cell_y (cs ! n) \<and> cell_y (cs ! n) < h"
  by (simp add: cells_within_def list_all_length)

lemma stamp:
  assumes d: "dims gr w h" and cw: "cells_within cs w h"
  shows "\<exists>gr'. for_loop 0 (int (length cs))
            (\<lambda>j s. do { cur \<leftarrow> load cs j; write_cell s (cell_x cur) (cell_y cur) ALIVE }) gr
          = Some gr' \<and> dims gr' w h \<and>
          (\<forall>a b. read_cell gr' a b = (if Cell a b \<in> set cs then Some ALIVE else read_cell gr a b))"
proof -
  let ?body = "\<lambda>j s. do { cur \<leftarrow> load cs j; write_cell s (cell_x cur) (cell_y cur) ALIVE }"
  define I where "I j s \<longleftrightarrow> dims s w h \<and>
     (\<forall>a b. read_cell s a b =
        (if Cell a b \<in> set (take (nat j) cs) then Some ALIVE else read_cell gr a b))" for j s
  have I0: "I 0 gr" using d by (simp add: I_def)
  have step: "\<exists>t'. ?body j t = Some t' \<and> I (j + 1) t'"
    if "0 \<le> j" "j < int (length cs)" "I j t" for j t
  proof -
    let ?n = "nat j"
    have n: "?n < length cs" using that by linarith
    have dt: "dims t w h" using that(3) by (simp add: I_def)
    obtain cx cy where c: "cs ! ?n = Cell cx cy" by (cases "cs ! ?n")
    have b: "0 \<le> cx" "cx < w" "0 \<le> cy" "cy < h"
      using cells_within_nth [OF cw n] c by simp_all
    from write_cell_in [OF dt b, of ALIVE] obtain t' where
      w: "write_cell t cx cy ALIVE = Some t'" and dt': "dims t' w h"
      and r: "\<forall>a b. read_cell t' a b = (if a = cx \<and> b = cy then Some ALIVE else read_cell t a b)"
      by blast
    have bd: "?body j t = Some t'" using that n c w by (simp add: load_def)
    have s: "set (take (nat (j + 1)) cs) = insert (Cell cx cy) (set (take ?n cs))"
    proof -
      have "nat (j + 1) = Suc ?n" using that(1) by simp
      then show ?thesis using n c by (simp add: take_Suc_conv_app_nth)
    qed
    have "I (j + 1) t'"
      unfolding I_def s using dt' r that(3) by (auto simp: I_def)
    then show ?thesis using bd by blast
  qed
  from for_loop_rule [of I 0 gr "int (length cs)" ?body, OF I0 step]
  obtain t where l: "for_loop 0 (int (length cs)) ?body gr = Some t"
    and It: "I (max 0 (int (length cs))) t" by blast
  have "I (int (length cs)) t" using It by (simp add: max_def)
  then show ?thesis using l by (simp add: I_def)
qed

lemma stamp_SomeD:
  assumes d: "dims gr w h"
    and l: "for_loop 0 (int (length cs))
            (\<lambda>j s. do { cur \<leftarrow> load cs j; write_cell s (cell_x cur) (cell_y cur) ALIVE }) gr
          = Some gr'"
  shows "cells_within cs w h"
proof -
  let ?body = "\<lambda>j s. do { cur \<leftarrow> load cs j; write_cell s (cell_x cur) (cell_y cur) ALIVE }"
  define I where "I j s \<longleftrightarrow> dims s w h \<and> cells_within (take (nat j) cs) w h" for j s
  have I0: "I 0 gr" using d by (simp add: I_def cells_within_def)
  have step: "I (j + 1) u'"
    if "0 \<le> j" "j < int (length cs)" "I j u" "?body j u = Some u'" for j u u'
  proof -
    let ?n = "nat j"
    have n: "?n < length cs" using that by linarith
    have du: "dims u w h" using that(3) by (simp add: I_def)
    have w: "write_cell u (cell_x (cs ! ?n)) (cell_y (cs ! ?n)) ALIVE = Some u'"
      using that n by (simp add: load_def)
    note b = write_cell_SomeD [OF du w]
    from write_cell_in [OF du, of "cell_x (cs ! ?n)" "cell_y (cs ! ?n)" ALIVE] b w
    have du': "dims u' w h" by auto
    have "nat (j + 1) = Suc ?n" using that(1) by simp
    then have "cells_within (take (nat (j + 1)) cs) w h"
      using n b that(3) by (simp add: I_def cells_within_def take_Suc_conv_app_nth)
    then show ?thesis using du' by (simp add: I_def)
  qed
  have "I (max 0 (int (length cs))) gr'"
  proof (rule for_loop_partial [of 0 "int (length cs)" ?body gr gr' I, OF l I0])
    fix j u u' assume "0 \<le> j" "j < int (length cs)" "I j u" "?body j u = Some u'"
    then show "I (j + 1) u'" by (rule step)
  qed
  then show ?thesis by (simp add: I_def max_def)
qed

lemma initializePattern_spec:
  assumes wf: "well_formed g" and cw: "cells_within (patternCells g) (width g) (height g)"
  shows "\<exists>gr. initializePattern g = Some (g\<lparr>grid := gr\<rparr>) \<and> dims gr (width g) (height g) \<and>
          (\<forall>a b. read_cell gr a b =
             (if Cell a b \<in> set (patternCells g) then Some ALIVE else read_cell (grid g) a b))"
proof -
  have d: "dims (grid g) (width g) (height g)" using wf by (simp add: well_formed_def)
  from stamp [OF d cw] show ?thesis by (auto simp: initializePattern_grid)
qed

lemma initializePattern_SomeD:
  assumes wf: "well_formed g" and i: "initializePattern g = Some g'"
  shows "cells_within (patternCells g) (width g) (height g)"
proof -
  have d: "dims (grid g) (width g) (height g)" using wf by (simp add: well_formed_def)
  from i obtain gr where "for_loop 0 (int (length (patternCells g)))
        (\<lambda>j s. do { cur \<leftarrow> load (patternCells g) j;
                    write_cell s (cell_x cur) (cell_y cur) ALIVE }) (grid g) = Some gr"
    by (auto simp: initializePattern_grid)
  from stamp_SomeD [OF d this] show ?thesis .
qed

subsection \<open>The constructor\<close>

lemma alloc_columns:
  assumes w: "0 \<le> w" and hw: "0 < w \<Longrightarrow> 0 \<le> h"
  shows "for_loop 0 w (\<lambda>col a. do {
             column \<leftarrow> new_array h indeterminate;
             store a col column
           }) (replicate (nat w) []) = Some (replicate (nat w) (replicate (nat h) indeterminate))"
proof -
  let ?body = "\<lambda>col a. do { column \<leftarrow> new_array h indeterminate; store a col column }"
  let ?c = "replicate (nat h) indeterminate"
  define I where "I col s \<longleftrightarrow> length s = nat w \<and> (\<forall>i < nat col. s ! i = ?c)" for col s
  have I0: "I 0 (replicate (nat w) [])" by (simp add: I_def)
  have step: "\<exists>t'. ?body j t = Some t' \<and> I (j + 1) t'" if "0 \<le> j" "j < w" "I j t" for j t
  proof -
    have h: "0 \<le> h" using hw that by linarith
    have lt: "length t = nat w" using that(3) by (simp add: I_def)
    have b: "?body j t = Some (t[nat j := ?c])"
      using h that lt by (simp add: new_array_def store_def)
    have "I (j + 1) (t[nat j := ?c])"
      unfolding I_def
    proof (intro conjI allI impI)
      show "length (t[nat j := ?c]) = nat w" using lt by simp
    next
      fix i assume i: "i < nat (j + 1)"
      show "t[nat j := ?c] ! i = ?c"
      proof (cases "i = nat j")
        case True
        then show ?thesis using that lt by simp
      next
        case False
        then have "i < nat j" using i that(1) by linarith
        then show ?thesis using that(3) False by (simp add: I_def)
      qed
    qed
    then show ?thesis using b by blast
  qed
  from for_loop_rule [of I 0 "replicate (nat w) []" w ?body, OF I0 step]
  obtain t where t: "for_loop 0 w ?body (replicate (nat w) []) = Some t"
    and It: "I (max 0 w) t" by blast
  have "I w t" using It w by (simp add: max_def)
  then have "t = replicate (nat w) ?c"
    by (intro nth_equalityI) (simp_all add: I_def)
  then show ?thesis using t by simp
qed

lemma cells_within_mem:
  assumes "cells_within cs w h" "Cell a b \<in> set cs"
  shows "0 \<le> a \<and> a < w \<and> 0 \<le> b \<and> b < h"
proof -
  from assms(1) have "\<forall>c \<in> set cs. 0 \<le> cell_x c \<and> cell_x c < w \<and> 0 \<le> cell_y c \<and> cell_y c < h"
    by (simp add: cells_within_def list_all_iff)
  from bspec [OF this assms(2)] show ?thesis by simp
qed

lemma new_Game_spec:
  assumes w: "0 \<le> w + 10" "w + 10 \<le> INT_MAX" and h: "0 \<le> h + 10" "h + 10 \<le> INT_MAX"
    and cs: "cs = (case base_pattern p of Some c \<Rightarrow> c | None \<Rightarrow> [])"
    and cw: "cells_within (map (shift_by (5 + xo) (5 + yo)) cs) (w + 10) (h + 10)"
  shows "\<exists>gr. new_Game w h p xo yo gens pause =
            Some \<lparr>width = w + 10, height = h + 10, buffer = 5, generations = gens,
                  pauseLength = pause, grid = gr,
                  patternCells = map (shift_by (5 + xo) (5 + yo)) cs\<rparr> \<and>
          dims gr (w + 10) (h + 10) \<and>
          (\<forall>a b. read_cell gr a b =
             (if 0 \<le> a \<and> a < w + 10 \<and> 0 \<le> b \<and> b < h + 10
              then Some (if Cell a b \<in> set (map (shift_by (5 + xo) (5 + yo)) cs)
                         then ALIVE else DEAD)
              else None))"
proof -
  let ?tw = "w + 10" and ?th = "h + 10"
  let ?placed = "map (shift_by (5 + xo) (5 + yo)) cs"
  let ?g0 = "\<lparr>width = ?tw, height = ?th, buffer = 5, generations = gens,
               pauseLength = pause,
               grid = replicate (nat ?tw) (replicate (nat ?th) indeterminate),
               patternCells = []\<rparr>"
  have imin: "INT_MIN \<le> 0" by (simp add: INT_MIN_def)
  have a1: "add_int w 10 = Some ?tw" using w imin by (simp add: add_int_def)
  have a2: "add_int h 10 = Some ?th" using h imin by (simp add: add_int_def)
  have n1: "new_array ?tw ([] :: int list) = Some (replicate (nat ?tw) [])"
    using w by (simp add: new_array_def)
  have wf0: "well_formed ?g0"
    using dims_replicate [OF w(1) h(1)] by (simp add: well_formed_def)
  from clearGrid_spec [OF wf0] obtain gr1 where
    c: "clearGrid ?g0 = Some (?g0\<lparr>grid := gr1\<rparr>)" and d1: "dims gr1 ?tw ?th"
    and r1: "\<forall>a b. read_cell gr1 a b =
              (if 0 \<le> a \<and> a < ?tw \<and> 0 \<le> b \<and> b < ?th then Some DEAD else None)"
    by auto
  let ?g1 = "?g0\<lparr>grid := gr1\<rparr>"
  have sc: "start_cells ?g1 p = cs" by (simp add: start_cells_def cs split: option.splits)
  have inb: "0 \<le> cell_x c + (5 + xo) \<and> cell_x c + (5 + xo) < ?tw \<and>
             0 \<le> cell_y c + (5 + yo) \<and> cell_y c + (5 + yo) < ?th" if "c \<in> set cs" for c
    using cw that by (auto simp: cells_within_def list_all_iff shift_by_def)
  have rng: "0 \<le> cell_x c \<and> cell_x c \<le> 35 \<and> 0 \<le> cell_y c \<and> cell_y c \<le> 8" if "c \<in> set cs" for c
  proof (cases "base_pattern p")
    case None
    then show ?thesis using that cs by simp
  next
    case (Some c')
    then show ?thesis using that cs base_pattern_range [of p c' c] by simp
  qed
  have dx: "add_int (buffer ?g1) xo = Some (5 + xo)" if "cs \<noteq> []"
  proof -
    from that obtain c where c: "c \<in> set cs" by (cases cs) auto
    show ?thesis using inb [OF c] rng [OF c] w
      by (simp add: add_int_def INT_MIN_def)
  qed
  have dy: "add_int (buffer ?g1) yo = Some (5 + yo)" if "cs \<noteq> []"
  proof -
    from that obtain c where c: "c \<in> set cs" by (cases cs) auto
    show ?thesis using inb [OF c] rng [OF c] h
      by (simp add: add_int_def INT_MIN_def)
  qed
  have ok: "add_int (cell_x c) (5 + xo) = Some (cell_x c + (5 + xo)) \<and>
            add_int (cell_y c) (5 + yo) = Some (cell_y c + (5 + yo))" if "c \<in> set cs" for c
    using inb [OF that] w h by (simp add: add_int_def INT_MIN_def)
  have sp: "setPatternVector ?g1 p xo yo = Some (?g1\<lparr>patternCells := ?placed\<rparr>)"
    unfolding setPatternVector_start sc
    using shift_loop [of cs ?g1 xo "5 + xo" yo "5 + yo", OF dx dy ok] by simp
  let ?g2 = "?g1\<lparr>patternCells := ?placed\<rparr>"
  have wf2: "well_formed ?g2" using d1 by (simp add: well_formed_def)
  have cw2: "cells_within (patternCells ?g2) (width ?g2) (height ?g2)" using cw by simp
  from initializePattern_spec [OF wf2 cw2] obtain gr3 where
    i: "initializePattern ?g2 = Some (?g2\<lparr>grid := gr3\<rparr>)" and d3: "dims gr3 ?tw ?th"
    and r3: "\<forall>a b. read_cell gr3 a b =
               (if Cell a b \<in> set ?placed then Some ALIVE else read_cell gr1 a b)"
    by auto
  have inp: "0 \<le> a \<and> a < ?tw \<and> 0 \<le> b \<and> b < ?th" if "Cell a b \<in> set ?placed" for a b
    using cells_within_mem [OF cw that] .
  have r: "read_cell gr3 a b =
      (if 0 \<le> a \<and> a < ?tw \<and> 0 \<le> b \<and> b < ?th
       then Some (if Cell a b \<in> set ?placed then ALIVE else DEAD) else None)" for a b
    using r3 r1 inp [of a b] by auto
  have "new_Game w h p xo yo gens pause = Some (?g2\<lparr>grid := gr3\<rparr>)"
    unfolding new_Game_def
    using c sp i by (simp add: a1 a2 n1 alloc_columns [OF w(1) h(1)])
  then show ?thesis using d3 r by auto
qed

section \<open>The concrete games\<close>

lemma all_dead_read:
  assumes "all_dead gr" "read_cell gr x y = Some v"
  shows "v = DEAD"
proof -
  from assms(2) have x: "nat x < length gr" and y: "nat y < length (gr ! nat x)"
    and v: "v = gr ! nat x ! nat y"
    by (auto simp: read_cell_def load_def Option.bind_eq_Some_conv split: if_splits)
  from assms(1) x have "list_all (\<lambda>v. v = DEAD) (gr ! nat x)"
    by (simp add: all_dead_def list_all_length)
  then show ?thesis using y v by (simp add: list_all_length)
qed

lemma all_deadI:
  assumes "dims gr w h" "\<And>x y v. read_cell gr x y = Some v \<Longrightarrow> v = DEAD"
  shows "all_dead gr"
  unfolding all_dead_def list_all_length
proof (intro allI impI)
  fix i j assume i: "i < length gr" and j: "j < length (gr ! i)"
  have iw: "int i < w" using assms(1) i by (auto simp: dims_def)
  have "int (length (gr ! i)) = h" using dims_nth [OF assms(1), of "int i"] iw by simp
  then have jh: "int j < h" using j by linarith
  have "read_cell gr (int i) (int j) = Some (gr ! i ! j)"
    using read_cell_in [OF assms(1), of "int i" "int j"] iw jh by simp
  then show "gr ! i ! j = DEAD" by (rule assms(2))
qed

lemma oscillator_game_facts:
  shows "new_Game 40 20 CHR ''o'' 0 0 10 100000 = Some oscillator_game"
    and "width oscillator_game = 50" and "height oscillator_game = 30"
    and "buffer oscillator_game = 5"
    and "well_formed oscillator_game"
    and "\<And>a b. read_cell (grid oscillator_game) a b =
           (if 0 \<le> a \<and> a < 50 \<and> 0 \<le> b \<and> b < 30
            then Some (if a = 6 \<and> (b = 5 \<or> b = 6 \<or> b = 7) then ALIVE else DEAD) else None)"
    and "patternCells oscillator_game = [Cell 6 5, Cell 6 6, Cell 6 7]"
proof -
  have cs: "[Cell 1 0, Cell 1 1, Cell 1 2] =
      (case base_pattern CHR ''o'' of Some c \<Rightarrow> c | None \<Rightarrow> [])"
    by (simp add: base_pattern_def)
  have cw: "cells_within (map (shift_by (5 + 0) (5 + 0)) [Cell 1 0, Cell 1 1, Cell 1 2])
      (40 + 10) (20 + 10)"
    by (simp add: cells_within_def shift_by_def)
  from new_Game_spec [of 40 20 "[Cell 1 0, Cell 1 1, Cell 1 2]" "CHR ''o''" 0 0 10 100000, OF _ _ _ _ cs cw]
  obtain gr where n: "new_Game 40 20 CHR ''o'' 0 0 10 100000 =
       Some \<lparr>width = 50, height = 30, buffer = 5, generations = 10,
             pauseLength = 100000, grid = gr,
             patternCells = [Cell 6 5, Cell 6 6, Cell 6 7]\<rparr>"
    and d: "dims gr 50 30"
    and r: "\<forall>a b. read_cell gr a b =
             (if 0 \<le> a \<and> a < 50 \<and> 0 \<le> b \<and> b < 30
              then Some (if Cell a b \<in> set [Cell 6 5, Cell 6 6, Cell 6 7]
                         then ALIVE else DEAD)
              else None)"
    by (auto simp: INT_MAX_def shift_by_def)
  have g: "oscillator_game = \<lparr>width = 50, height = 30, buffer = 5, generations = 10,
             pauseLength = 100000, grid = gr,
             patternCells = [Cell 6 5, Cell 6 6, Cell 6 7]\<rparr>"
    by (simp add: oscillator_game_def n)
  show "new_Game 40 20 CHR ''o'' 0 0 10 100000 = Some oscillator_game" by (simp add: g n)
  show "width oscillator_game = 50" "height oscillator_game = 30" "buffer oscillator_game = 5"
    by (simp_all add: g)
  show "well_formed oscillator_game" using d by (simp add: well_formed_def g)
  show "patternCells oscillator_game = [Cell 6 5, Cell 6 6, Cell 6 7]" by (simp add: g)
  show "read_cell (grid oscillator_game) a b =
           (if 0 \<le> a \<and> a < 50 \<and> 0 \<le> b \<and> b < 30
            then Some (if a = 6 \<and> (b = 5 \<or> b = 6 \<or> b = 7) then ALIVE else DEAD) else None)" for a b
    using r by (auto simp: g)
qed

lemma oscillator_game_binary: "binary (grid oscillator_game)"
proof (rule binaryI)
  show "dims (grid oscillator_game) 50 30"
    using oscillator_game_facts(2,3,5) by (simp add: well_formed_def)
next
  fix x y v assume "read_cell (grid oscillator_game) x y = Some v"
  then show "v = DEAD \<or> v = ALIVE"
    by (auto simp: oscillator_game_facts(6) split: if_splits)
qed

lemma oscillator_game_cell_at:
  assumes "0 \<le> a" "a < 50" "0 \<le> b" "b < 30"
  shows "cell_at (grid oscillator_game) a b =
         (if a = 6 \<and> (b = 5 \<or> b = 6 \<or> b = 7) then ALIVE else DEAD)"
proof -
  have d: "dims (grid oscillator_game) 50 30"
    using oscillator_game_facts(2,3,5) by (simp add: well_formed_def)
  from cell_at_read [OF d assms] show ?thesis
    using assms by (simp add: oscillator_game_facts(6))
qed

lemma empty_game_facts:
  shows "new_Game 40 20 CHR ''x'' 0 0 10 100000 = Some empty_game"
    and "width empty_game = 50" and "height empty_game = 30"
    and "buffer empty_game = 5"
    and "well_formed empty_game"
    and "\<And>a b. read_cell (grid empty_game) a b =
           (if 0 \<le> a \<and> a < 50 \<and> 0 \<le> b \<and> b < 30 then Some DEAD else None)"
    and "patternCells empty_game = []"
proof -
  have cs: "[] = (case base_pattern CHR ''x'' of Some c \<Rightarrow> c | None \<Rightarrow> [])"
    by (simp add: base_pattern_def)
  have cw: "cells_within (map (shift_by (5 + 0) (5 + 0)) []) (40 + 10) (20 + 10)"
    by (simp add: cells_within_def)
  from new_Game_spec [of 40 20 "[]" "CHR ''x''" 0 0 10 100000, OF _ _ _ _ cs cw]
  obtain gr where n: "new_Game 40 20 CHR ''x'' 0 0 10 100000 =
       Some \<lparr>width = 50, height = 30, buffer = 5, generations = 10,
             pauseLength = 100000, grid = gr, patternCells = []\<rparr>"
    and d: "dims gr 50 30"
    and r: "\<forall>a b. read_cell gr a b =
             (if 0 \<le> a \<and> a < 50 \<and> 0 \<le> b \<and> b < 30 then Some DEAD else None)"
    by (auto simp: INT_MAX_def)
  have g: "empty_game = \<lparr>width = 50, height = 30, buffer = 5, generations = 10,
             pauseLength = 100000, grid = gr, patternCells = []\<rparr>"
    by (simp add: empty_game_def n)
  show "new_Game 40 20 CHR ''x'' 0 0 10 100000 = Some empty_game" by (simp add: g n)
  show "width empty_game = 50" "height empty_game = 30" "buffer empty_game = 5"
    by (simp_all add: g)
  show "well_formed empty_game" using d by (simp add: well_formed_def g)
  show "patternCells empty_game = []" by (simp add: g)
  show "read_cell (grid empty_game) a b =
           (if 0 \<le> a \<and> a < 50 \<and> 0 \<le> b \<and> b < 30 then Some DEAD else None)" for a b
    using r by (auto simp: g)
qed

lemma empty_game_all_dead: "all_dead (grid empty_game)"
proof (rule all_deadI)
  show "dims (grid empty_game) 50 30"
    using empty_game_facts(2,3,5) by (simp add: well_formed_def)
next
  fix x y v assume "read_cell (grid empty_game) x y = Some v"
  then show "v = DEAD" by (auto simp: empty_game_facts(6) split: if_splits)
qed

lemma all_dead_binary: "all_dead gr \<Longrightarrow> binary gr"
  unfolding all_dead_def binary_def list_all_length by simp

lemma oscillator_game_total_66: "totalLiveNeighbors oscillator_game 6 6 = Some 2"
proof -
  have d: "dims (grid oscillator_game) 50 30"
    using oscillator_game_facts(2,3,5) by (simp add: well_formed_def)
  have "totalLiveNeighbors oscillator_game 6 6 = Some (neighborSum (grid oscillator_game) 6 6)"
    by (rule totalLiveNeighbors_spec(1) [OF d oscillator_game_binary]) simp_all
  then show ?thesis by (simp add: neighborSum_def oscillator_game_cell_at)
qed

lemma oscillator_game_total_56: "totalLiveNeighbors oscillator_game 5 6 = Some 3"
proof -
  have d: "dims (grid oscillator_game) 50 30"
    using oscillator_game_facts(2,3,5) by (simp add: well_formed_def)
  have "totalLiveNeighbors oscillator_game 5 6 = Some (neighborSum (grid oscillator_game) 5 6)"
    by (rule totalLiveNeighbors_spec(1) [OF d oscillator_game_binary]) simp_all
  then show ?thesis by (simp add: neighborSum_def oscillator_game_cell_at)
qed

lemma oscillator_game_total_65: "totalLiveNeighbors oscillator_game 6 5 = Some 1"
proof -
  have d: "dims (grid oscillator_game) 50 30"
    using oscillator_game_facts(2,3,5) by (simp add: well_formed_def)
  have "totalLiveNeighbors oscillator_game 6 5 = Some (neighborSum (grid oscillator_game) 6 5)"
    by (rule totalLiveNeighbors_spec(1) [OF d oscillator_game_binary]) simp_all
  then show ?thesis by (simp add: neighborSum_def oscillator_game_cell_at)
qed

section \<open>What the methods preserve\<close>

subsection \<open>tick, clearGrid and initializePattern\<close>

lemma nextState_binary:
  "cur = DEAD \<or> cur = ALIVE \<Longrightarrow> nextState cur n = DEAD \<or> nextState cur n = ALIVE"
  by (simp add: nextState_def)

lemma tick_preserves:
  assumes wf: "well_formed g" and b: "binary (grid g)"
  shows "\<exists>gr. tick g = Some (g\<lparr>grid := gr\<rparr>) \<and> well_formed (g\<lparr>grid := gr\<rparr>) \<and> binary gr \<and>
           (\<forall>a b. \<not> interior g a b \<longrightarrow> read_cell gr a b = read_cell (grid g) a b)"
proof -
  have d: "dims (grid g) (width g) (height g)" using wf by (simp add: well_formed_def)
  from tick_spec [OF wf b] obtain gr where
    t: "tick g = Some (g\<lparr>grid := gr\<rparr>)" and dg: "dims gr (width g) (height g)"
    and r: "\<forall>a b. read_cell gr a b =
              (if interior g a b
               then Some (nextState (cell_at (grid g) a b) (neighborSum (grid g) a b))
               else read_cell (grid g) a b)"
    by blast
  have "binary gr"
  proof (rule binaryI [OF dg])
    fix x y v assume v: "read_cell gr x y = Some v"
    show "v = DEAD \<or> v = ALIVE"
    proof (cases "interior g x y")
      case True
      then have "0 \<le> x" "x < width g" "0 \<le> y" "y < height g" by (simp_all add: interior_def)
      from binary_cell_at [OF d b this]
      have "nextState (cell_at (grid g) x y) (neighborSum (grid g) x y) = DEAD \<or>
            nextState (cell_at (grid g) x y) (neighborSum (grid g) x y) = ALIVE"
        by (rule nextState_binary)
      then show ?thesis using r v True by simp
    next
      case False
      then have "read_cell (grid g) x y = Some v" using r v by simp
      then show ?thesis by (rule binary_read [OF b])
    qed
  qed
  then show ?thesis using t dg r by (auto simp: well_formed_def)
qed

lemma ticks_preserve:
  assumes "well_formed g" "binary (grid g)"
  shows "\<exists>gr. ticks n g = Some (g\<lparr>grid := gr\<rparr>) \<and> well_formed (g\<lparr>grid := gr\<rparr>) \<and> binary gr"
  using assms
proof (induction n arbitrary: g)
  case 0
  have "g\<lparr>grid := grid g\<rparr> = g" by simp
  then show ?case using 0 by (metis ticks.simps(1))
next
  case (Suc n)
  from tick_preserves [OF Suc.prems] obtain gr where
    t: "tick g = Some (g\<lparr>grid := gr\<rparr>)" and wf: "well_formed (g\<lparr>grid := gr\<rparr>)"
    and b: "binary (grid (g\<lparr>grid := gr\<rparr>))" by auto
  from Suc.IH [OF wf b] obtain gr' where
    "ticks n (g\<lparr>grid := gr\<rparr>) = Some (g\<lparr>grid := gr'\<rparr>)"
    "well_formed (g\<lparr>grid := gr'\<rparr>)" "binary gr'" by auto
  then show ?case using t by auto
qed

lemma shift_cell_fields:
  "shift_cell xo yo j t = Some t' \<Longrightarrow>
   grid t' = grid t \<and> width t' = width t \<and> height t' = height t \<and> buffer t' = buffer t"
  by (auto simp: shift_cell_def Option.bind_eq_Some_conv)

lemma setPatternVector_fields:
  assumes "setPatternVector g p xo yo = Some g'"
  shows "grid g' = grid g \<and> width g' = width g \<and> height g' = height g \<and> buffer g' = buffer g"
proof -
  let ?cs = "start_cells g p"
  define I where "I (j :: int) (t :: Game) \<longleftrightarrow>
     grid t = grid g \<and> width t = width g \<and> height t = height g \<and> buffer t = buffer g" for j t
  have l: "for_loop 0 (int (length ?cs)) (shift_cell xo yo) (g\<lparr>patternCells := ?cs\<rparr>) = Some g'"
    using assms by (simp add: setPatternVector_start)
  have I0: "I 0 (g\<lparr>patternCells := ?cs\<rparr>)" by (simp add: I_def)
  have "I (max 0 (int (length ?cs))) g'"
  proof (rule for_loop_partial [of 0 "int (length ?cs)" "shift_cell xo yo"
        "g\<lparr>patternCells := ?cs\<rparr>" g' I, OF l I0])
    fix j u u' assume "I j u" "shift_cell xo yo j u = Some u'"
    then show "I (j + 1) u'" using shift_cell_fields [of xo yo j u u'] by (simp add: I_def)
  qed
  then show ?thesis by (simp add: I_def)
qed

lemma clearGrid_all_dead:
  assumes "well_formed g"
  shows "\<exists>gr. clearGrid g = Some (g\<lparr>grid := gr\<rparr>) \<and> well_formed (g\<lparr>grid := gr\<rparr>) \<and> all_dead gr"
proof -
  from clearGrid_spec [OF assms] obtain gr where
    c: "clearGrid g = Some (g\<lparr>grid := gr\<rparr>)" and d: "dims gr (width g) (height g)"
    and r: "\<forall>a b. read_cell gr a b =
              (if 0 \<le> a \<and> a < width g \<and> 0 \<le> b \<and> b < height g then Some DEAD else None)"
    by blast
  have "all_dead gr"
  proof (rule all_deadI [OF d])
    fix x y v assume "read_cell gr x y = Some v"
    then show "v = DEAD" using r by (auto split: if_splits)
  qed
  then show ?thesis using c d by (auto simp: well_formed_def)
qed

lemma initializePattern_preserves:
  assumes wf: "well_formed g" and b: "binary (grid g)" and i: "initializePattern g = Some g'"
  shows "well_formed g' \<and> binary (grid g')"
proof -
  have cw: "cells_within (patternCells g) (width g) (height g)"
    using initializePattern_SomeD [OF wf i] .
  from initializePattern_spec [OF wf cw] i obtain gr where
    g': "g' = g\<lparr>grid := gr\<rparr>" and d: "dims gr (width g) (height g)"
    and r: "\<forall>a b. read_cell gr a b =
             (if Cell a b \<in> set (patternCells g) then Some ALIVE else read_cell (grid g) a b)"
    by auto
  have "binary gr"
  proof (rule binaryI [OF d])
    fix x y v assume "read_cell gr x y = Some v"
    then show "v = DEAD \<or> v = ALIVE" using r binary_read [OF b, of x y v]
      by (auto split: if_splits)
  qed
  then show ?thesis using d by (simp add: g' well_formed_def)
qed

lemma new_Game_SomeD:
  assumes n: "new_Game w h p xo yo gens pause = Some g"
  shows "well_formed g \<and> binary (grid g) \<and> width g = w + 10 \<and> height g = h + 10 \<and> buffer g = 5"
proof -
  let ?alloc = "\<lambda>th col a. do { column \<leftarrow> new_array th indeterminate; store a col column }"
  from n obtain tw th cols gr g1 g2 where
    tw: "add_int w 10 = Some tw" and th: "add_int h 10 = Some th"
    and cols: "new_array tw ([] :: int list) = Some cols"
    and al: "for_loop 0 tw (?alloc th) cols = Some gr"
    and c: "clearGrid \<lparr>width = tw, height = th, buffer = 5, generations = gens,
               pauseLength = pause, grid = gr, patternCells = []\<rparr> = Some g1"
    and sp: "setPatternVector g1 p xo yo = Some g2"
    and ip: "initializePattern g2 = Some g"
    by (auto simp: new_Game_def Option.bind_eq_Some_conv)
  have tw': "tw = w + 10" and th': "th = h + 10"
    using tw th by (auto simp: add_int_def split: if_splits)
  have w0: "0 \<le> tw" and cols': "cols = replicate (nat tw) []"
    using cols by (auto simp: new_array_def split: if_splits)
  have h0: "0 \<le> th" if "0 < tw"
  proof -
    from that al obtain a where "?alloc th 0 cols = Some a"
      by (auto simp: for_loop_step Option.bind_eq_Some_conv)
    then show ?thesis by (auto simp: new_array_def Option.bind_eq_Some_conv split: if_splits)
  qed
  have gr: "gr = replicate (nat tw) (replicate (nat th) indeterminate)"
    using al alloc_columns [OF w0 h0] by (simp add: cols')
  let ?g0 = "\<lparr>width = tw, height = th, buffer = 5, generations = gens,
               pauseLength = pause, grid = gr, patternCells = []\<rparr>"
  have wf0: "well_formed ?g0"
    using dims_replicate [OF w0 h0] by (simp add: well_formed_def gr)
  from clearGrid_all_dead [OF wf0] c obtain gr1 where
    g1: "g1 = ?g0\<lparr>grid := gr1\<rparr>" and wf1: "well_formed g1" and ad: "all_dead gr1"
    by auto
  note f = setPatternVector_fields [OF sp]
  have wf2: "well_formed g2" using wf1 f by (simp add: well_formed_def)
  have b2: "binary (grid g2)" using ad f g1 by (simp add: all_dead_binary)
  from initializePattern_preserves [OF wf2 b2 ip]
  have "well_formed g" "binary (grid g)" by simp_all
  moreover have "cells_within (patternCells g2) (width g2) (height g2)"
    using initializePattern_SomeD [OF wf2 ip] .
  from initializePattern_spec [OF wf2 this] ip
  have "width g = width g2 \<and> height g = height g2 \<and> buffer g = buffer g2" by auto
  ultimately show ?thesis using f g1 tw' th' by simp
qed

subsection \<open>What a defined placement and a defined construction imply\<close>

lemma add_int_SomeD: "add_int a b = Some c \<Longrightarrow> c = a + b"
  by (auto simp: add_int_def split: if_splits)

lemma shift_cell_SomeD:
  assumes "shift_cell xo yo j t = Some t'"
  shows "0 \<le> j \<and> nat j < length (patternCells t) \<and>
         t' = t\<lparr>patternCells := (patternCells t)[nat j :=
                 shift_by (buffer t + xo) (buffer t + yo) (patternCells t ! nat j)]\<rparr>"
  using assms
  by (auto simp: shift_cell_def Option.bind_eq_Some_conv load_def store_def shift_by_def
      dest!: add_int_SomeD split: if_splits)

lemma setPatternVector_SomeD:
  assumes "setPatternVector g p xo yo = Some g'"
  shows "g' = g\<lparr>patternCells :=
            map (shift_by (buffer g + xo) (buffer g + yo)) (start_cells g p)\<rparr>"
proof -
  let ?cs = "start_cells g p"
  let ?f = "shift_by (buffer g + xo) (buffer g + yo)"
  define I where "I j (t :: Game) \<longleftrightarrow>
     t = g\<lparr>patternCells := map ?f (take (nat j) ?cs) @ drop (nat j) ?cs\<rparr>" for j t
  have l: "for_loop 0 (int (length ?cs)) (shift_cell xo yo) (g\<lparr>patternCells := ?cs\<rparr>) = Some g'"
    using assms by (simp add: setPatternVector_start)
  have I0: "I 0 (g\<lparr>patternCells := ?cs\<rparr>)" by (simp add: I_def)
  have "I (max 0 (int (length ?cs))) g'"
  proof (rule for_loop_partial [of 0 "int (length ?cs)" "shift_cell xo yo"
        "g\<lparr>patternCells := ?cs\<rparr>" g' I, OF l I0])
    fix j u u' assume j: "0 \<le> j" "j < int (length ?cs)" and u: "I j u"
      and s: "shift_cell xo yo j u = Some u'"
    let ?n = "nat j"
    have n: "?n < length ?cs" using j by linarith
    have ut: "u = g\<lparr>patternCells := map ?f (take ?n ?cs) @ drop ?n ?cs\<rparr>"
      using u by (simp add: I_def)
    have nth: "patternCells u ! ?n = ?cs ! ?n" using n by (simp add: ut nth_append)
    have "u' = u\<lparr>patternCells := (patternCells u)[?n := ?f (?cs ! ?n)]\<rparr>"
      using shift_cell_SomeD [OF s] nth by (simp add: ut)
    then have "u' = g\<lparr>patternCells := map ?f (take (Suc ?n) ?cs) @ drop (Suc ?n) ?cs\<rparr>"
      using shift_step [OF n, of ?f] by (simp add: ut)
    moreover have "nat (j + 1) = Suc ?n" using j(1) by simp
    ultimately show "I (j + 1) u'" by (simp add: I_def)
  qed
  then show ?thesis by (simp add: I_def max_def)
qed

lemma new_Game_cells:
  assumes n: "new_Game w h p xo yo gens pause = Some g"
  shows "patternCells g = map (shift_by (5 + xo) (5 + yo))
                            (case base_pattern p of Some c \<Rightarrow> c | None \<Rightarrow> [])"
    and "cells_within (patternCells g) (width g) (height g)"
    and "\<And>a b. read_cell (grid g) a b =
           (if 0 \<le> a \<and> a < width g \<and> 0 \<le> b \<and> b < height g
            then Some (if Cell a b \<in> set (patternCells g) then ALIVE else DEAD) else None)"
proof -
  let ?alloc = "\<lambda>th col a. do { column \<leftarrow> new_array th indeterminate; store a col column }"
  let ?cs = "case base_pattern p of Some c \<Rightarrow> c | None \<Rightarrow> []"
  from n obtain tw th cols gr g1 g2 where
    tw: "add_int w 10 = Some tw" and th: "add_int h 10 = Some th"
    and cols: "new_array tw ([] :: int list) = Some cols"
    and al: "for_loop 0 tw (?alloc th) cols = Some gr"
    and c: "clearGrid \<lparr>width = tw, height = th, buffer = 5, generations = gens,
               pauseLength = pause, grid = gr, patternCells = []\<rparr> = Some g1"
    and sp: "setPatternVector g1 p xo yo = Some g2"
    and ip: "initializePattern g2 = Some g"
    by (auto simp: new_Game_def Option.bind_eq_Some_conv)
  have w0: "0 \<le> tw" and cols': "cols = replicate (nat tw) []"
    using cols by (auto simp: new_array_def split: if_splits)
  have h0: "0 \<le> th" if "0 < tw"
  proof -
    from that al obtain a where "?alloc th 0 cols = Some a"
      by (auto simp: for_loop_step Option.bind_eq_Some_conv)
    then show ?thesis by (auto simp: new_array_def Option.bind_eq_Some_conv split: if_splits)
  qed
  have gr: "gr = replicate (nat tw) (replicate (nat th) indeterminate)"
    using al alloc_columns [OF w0 h0] by (simp add: cols')
  let ?g0 = "\<lparr>width = tw, height = th, buffer = 5, generations = gens,
               pauseLength = pause, grid = gr, patternCells = []\<rparr>"
  have wf0: "well_formed ?g0"
    using dims_replicate [OF w0 h0] by (simp add: well_formed_def gr)
  from clearGrid_spec [OF wf0] c obtain gr1 where
    g1: "g1 = ?g0\<lparr>grid := gr1\<rparr>" and d1: "dims gr1 tw th"
    and r1: "\<forall>a b. read_cell gr1 a b =
              (if 0 \<le> a \<and> a < tw \<and> 0 \<le> b \<and> b < th then Some DEAD else None)"
    by auto
  have sc: "start_cells g1 p = ?cs" by (simp add: start_cells_def g1 split: option.splits)
  have g2: "g2 = g1\<lparr>patternCells := map (shift_by (5 + xo) (5 + yo)) ?cs\<rparr>"
    using setPatternVector_SomeD [OF sp] sc by (simp add: g1)
  have wf2: "well_formed g2" using d1 by (simp add: well_formed_def g2 g1)
  have cw: "cells_within (patternCells g2) (width g2) (height g2)"
    using initializePattern_SomeD [OF wf2 ip] .
  from initializePattern_spec [OF wf2 cw] ip obtain gr3 where
    g: "g = g2\<lparr>grid := gr3\<rparr>"
    and r3: "\<forall>a b. read_cell gr3 a b =
               (if Cell a b \<in> set (patternCells g2) then Some ALIVE else read_cell (grid g2) a b)"
    by auto
  show "patternCells g = map (shift_by (5 + xo) (5 + yo)) ?cs" by (simp add: g g2)
  show "cells_within (patternCells g) (width g) (height g)" using cw by (simp add: g)
  show "read_cell (grid g) a b =
           (if 0 \<le> a \<and> a < width g \<and> 0 \<le> b \<and> b < height g
            then Some (if Cell a b \<in> set (patternCells g) then ALIVE else DEAD) else None)" for a b
    using r3 r1 cells_within_mem [OF cw, of a b] by (auto simp: g g2 g1)
qed

subsection \<open>The border\<close>




subsection \<open>Letters outside the catalogue\<close>

lemma base_pattern_None:
  "base_pattern key = None \<longleftrightarrow> key \<noteq> CHR ''o'' \<and> key \<noteq> CHR ''g'' \<and> key \<noteq> CHR ''u''"
  by (simp add: base_pattern_def)

lemma setPatternVector_empty:
  assumes "base_pattern key = None" "patternCells g = []"
  shows "setPatternVector g key xo yo = Some g"
proof -
  have "start_cells g key = []" using assms by (simp add: start_cells_def)
  moreover have "g\<lparr>patternCells := []\<rparr> = g" using assms(2) by simp
  ultimately show ?thesis by (simp add: setPatternVector_start for_loop_done)
qed

lemma initializePattern_empty:
  assumes "patternCells g = []"
  shows "initializePattern g = Some g"
  using assms by (simp add: initializePattern_def for_loop_done)

subsection \<open>Rendering\<close>

lemma upto_snoc: "i \<le> j \<Longrightarrow> [i..j] = [i..j - 1] @ [j]"
  by (rule upto_rec2)

lemma print_row:
  assumes d: "dims (grid g) w h" and c: "0 \<le> col0" "col1 \<le> w" and r: "0 \<le> row" "row < h"
  shows "for_loop col0 col1 (\<lambda>col out2. do {
                 v \<leftarrow> read_cell (grid g) col row;
                 let c = (if v = ALIVE then CHR ''X'' else CHR ''.'');
                 Some (out2 @ [c])
               }) out =
         Some (out @ map (\<lambda>col. glyph (cell_at (grid g) col row)) [col0..col1 - 1])"
proof -
  let ?body = "\<lambda>col out2. do {
                 v \<leftarrow> read_cell (grid g) col row;
                 let c = (if v = ALIVE then CHR ''X'' else CHR ''.'');
                 Some (out2 @ [c]) }"
  let ?f = "\<lambda>col. glyph (cell_at (grid g) col row)"
  define I where "I j t \<longleftrightarrow> t = out @ map ?f [col0..j - 1]" for j t
  have I0: "I col0 out" by (simp add: I_def)
  have step: "\<exists>t'. ?body j t = Some t' \<and> I (j + 1) t'" if "col0 \<le> j" "j < col1" "I j t" for j t
  proof -
    have "read_cell (grid g) j row = Some (cell_at (grid g) j row)"
      using that c r by (intro cell_at_read [OF d]) linarith+
    then have "?body j t = Some (t @ [?f j])" by (simp add: glyph_def)
    moreover have "I (j + 1) (t @ [?f j])"
      using that(1,3) upto_snoc [of col0 j] by (simp add: I_def)
    ultimately show ?thesis by blast
  qed
  from for_loop_rule [of I col0 out col1 ?body, OF I0 step]
  obtain t where l: "for_loop col0 col1 ?body out = Some t" and It: "I (max col0 col1) t"
    by blast
  have "[col0..max col0 col1 - 1] = [col0..col1 - 1]" by (simp add: max_def)
  then show ?thesis using l It by (simp add: I_def)
qed

lemma print_rows_spec:
  assumes d: "dims (grid g) w h" and c: "0 \<le> col0" "col1 \<le> w" and r: "0 \<le> row0" "row1 \<le> h"
  shows "print_rows g row0 row1 col0 col1 = Some (unlines (render g row0 row1 col0 col1))"
proof -
  let ?inner = "\<lambda>row. (\<lambda>col out2. do {
                 v \<leftarrow> read_cell (grid g) col row;
                 let c = (if v = ALIVE then CHR ''X'' else CHR ''.'');
                 Some (out2 @ [c]) })"
  let ?body = "\<lambda>row out. do {
       out1 \<leftarrow> for_loop col0 col1 (?inner row) out;
       Some (out1 @ [CHR 0x0A]) }"
  let ?line = "\<lambda>row. map (\<lambda>col. glyph (cell_at (grid g) col row)) [col0..col1 - 1]"
  define I where "I j t \<longleftrightarrow> t = unlines (map ?line [row0..j - 1])" for j t
  have I0: "I row0 []" by (simp add: I_def unlines_def)
  have step: "\<exists>t'. ?body j t = Some t' \<and> I (j + 1) t'" if "row0 \<le> j" "j < row1" "I j t" for j t
  proof -
    have j: "0 \<le> j" "j < h" using that r by linarith+
    have "?body j t = Some (t @ ?line j @ [CHR 0x0A])"
      by (simp only: print_row [OF d c j]) simp
    moreover have "I (j + 1) (t @ ?line j @ [CHR 0x0A])"
      using that(1,3) upto_snoc [of row0 j] by (simp add: I_def unlines_def)
    ultimately show ?thesis by blast
  qed
  from for_loop_rule [of I row0 "[]" row1 ?body, OF I0 step]
  obtain t where l: "for_loop row0 row1 ?body [] = Some t" and It: "I (max row0 row1) t"
    by blast
  have "[row0..max row0 row1 - 1] = [row0..row1 - 1]" by (simp add: max_def)
  then have "t = unlines (render g row0 row1 col0 col1)"
    using It by (simp add: I_def render_def)
  then show ?thesis using l by (simp add: print_rows_def)
qed

lemma render_length: "length (render g row0 row1 col0 col1) = nat (row1 - row0)"
  by (simp add: render_def)

lemma render_row_length:
  "r \<in> set (render g row0 row1 col0 col1) \<Longrightarrow> length r = nat (col1 - col0)"
  by (auto simp: render_def)

lemma render_nth:
  assumes "0 \<le> i" "i < row1 - row0" "0 \<le> j" "j < col1 - col0"
  shows "render g row0 row1 col0 col1 ! nat i ! nat j = glyph (cell_at (grid g) (col0 + j) (row0 + i))"
  using assms by (simp add: render_def)

lemma render_no_newline: "r \<in> set (render g row0 row1 col0 col1) \<Longrightarrow> CHR 0x0A \<notin> set r"
  by (auto simp: render_def glyph_def)

lemma glyph_read:
  assumes "dims (grid g) w h" "0 \<le> x" "x < w" "0 \<le> y" "y < h"
  shows "glyph (cell_at (grid g) x y) =
         (if read_cell (grid g) x y = Some ALIVE then CHR ''X'' else CHR ''.'')"
  using cell_at_read [OF assms] by (simp add: glyph_def)

subsection \<open>Placing a pattern\<close>

lemma shift_by_mem:
  "Cell a b \<in> shift_by dx dy ` S \<longleftrightarrow> Cell (a - dx) (b - dy) \<in> S"
proof
  assume "Cell a b \<in> shift_by dx dy ` S"
  then obtain c where c: "c \<in> S" and e: "Cell a b = shift_by dx dy c" by auto
  have "c = Cell (a - dx) (b - dy)" using e by (cases c) (simp add: shift_by_def)
  then show "Cell (a - dx) (b - dy) \<in> S" using c by simp
next
  assume "Cell (a - dx) (b - dy) \<in> S"
  then have "shift_by dx dy (Cell (a - dx) (b - dy)) \<in> shift_by dx dy ` S"
    by (rule imageI)
  then show "Cell a b \<in> shift_by dx dy ` S" by (simp add: shift_by_def)
qed

lemma placePattern_SomeD:
  assumes wf: "well_formed g" and key: "base_pattern key = Some cs"
    and p: "placePattern g key xo yo = Some g'"
  shows "\<forall>a b. read_cell (grid g') a b =
           (if Cell (a - (buffer g + xo)) (b - (buffer g + yo)) \<in> set cs then Some ALIVE
            else read_cell (grid g) a b)"
proof -
  let ?placed = "map (shift_by (buffer g + xo) (buffer g + yo)) cs"
  from p obtain g1 where sp: "setPatternVector g key xo yo = Some g1"
    and ip: "initializePattern g1 = Some g'"
    by (auto simp: placePattern_def Option.bind_eq_Some_conv)
  have sc: "start_cells g key = cs" by (simp add: start_cells_def key)
  have g1: "g1 = g\<lparr>patternCells := ?placed\<rparr>"
    using setPatternVector_SomeD [OF sp] by (simp add: sc)
  have wf1: "well_formed g1" using wf by (simp add: well_formed_def g1)
  have cw: "cells_within (patternCells g1) (width g1) (height g1)"
    using initializePattern_SomeD [OF wf1 ip] .
  from initializePattern_spec [OF wf1 cw] ip
  have "\<forall>a b. read_cell (grid g') a b =
           (if Cell a b \<in> set (patternCells g1) then Some ALIVE else read_cell (grid g1) a b)"
    by auto
  then show ?thesis by (simp add: g1 shift_by_mem)
qed

lemma placePattern_defined:
  assumes wf: "well_formed g" and key: "base_pattern key = Some cs"
    and lim: "width g \<le> INT_MAX" "height g \<le> INT_MAX"
    and cw: "cells_within (map (shift_by (buffer g + xo) (buffer g + yo)) cs) (width g) (height g)"
  shows "\<exists>g'. placePattern g key xo yo = Some g'"
proof -
  let ?dx = "buffer g + xo" and ?dy = "buffer g + yo"
  let ?placed = "map (shift_by ?dx ?dy) cs"
  have sc: "start_cells g key = cs" by (simp add: start_cells_def key)
  have inb: "0 \<le> cell_x c + ?dx \<and> cell_x c + ?dx < width g \<and>
             0 \<le> cell_y c + ?dy \<and> cell_y c + ?dy < height g" if "c \<in> set cs" for c
    using cw that by (auto simp: cells_within_def list_all_iff shift_by_def)
  note rng = base_pattern_range [OF key]
  have dx: "add_int (buffer (g\<lparr>patternCells := cs\<rparr>)) xo = Some ?dx" if "cs \<noteq> []"
  proof -
    from that obtain c where c: "c \<in> set cs" by (cases cs) auto
    show ?thesis using inb [OF c] rng [OF c] lim
      by (simp add: add_int_def INT_MIN_def)
  qed
  have dy: "add_int (buffer (g\<lparr>patternCells := cs\<rparr>)) yo = Some ?dy" if "cs \<noteq> []"
  proof -
    from that obtain c where c: "c \<in> set cs" by (cases cs) auto
    show ?thesis using inb [OF c] rng [OF c] lim
      by (simp add: add_int_def INT_MIN_def)
  qed
  have ok: "add_int (cell_x c) ?dx = Some (cell_x c + ?dx) \<and>
            add_int (cell_y c) ?dy = Some (cell_y c + ?dy)" if "c \<in> set cs" for c
    using inb [OF that] lim by (simp add: add_int_def INT_MIN_def)
  have "for_loop 0 (int (length cs)) (shift_cell xo yo)
          (g\<lparr>patternCells := cs\<rparr>\<lparr>patternCells := cs\<rparr>) =
        Some (g\<lparr>patternCells := cs\<rparr>\<lparr>patternCells := ?placed\<rparr>)"
    by (rule shift_loop [of cs "g\<lparr>patternCells := cs\<rparr>" xo ?dx yo ?dy, OF dx dy ok])
  then have sp: "setPatternVector g key xo yo = Some (g\<lparr>patternCells := ?placed\<rparr>)"
    by (simp add: setPatternVector_start sc)
  let ?g1 = "g\<lparr>patternCells := ?placed\<rparr>"
  have wf1: "well_formed ?g1" using wf by (simp add: well_formed_def)
  have cw1: "cells_within (patternCells ?g1) (width ?g1) (height ?g1)" using cw by simp
  from initializePattern_spec [OF wf1 cw1] obtain g' where "initializePattern ?g1 = Some g'"
    by blast
  then show ?thesis using sp by (simp add: placePattern_def)
qed

section \<open>The oscillator\<close>

subsection \<open>One step of each phase\<close>

lemma vbar_step:
  "nextState (vbar x y a b)
     (vbar x y (a - 1) (b - 1) + vbar x y (a - 1) b + vbar x y (a - 1) (b + 1) +
      vbar x y a (b - 1) + vbar x y a (b + 1) +
      vbar x y (a + 1) (b - 1) + vbar x y (a + 1) b + vbar x y (a + 1) (b + 1)) = hbar x y a b"
proof -
  consider "a < x - 1" | "a = x - 1" | "a = x" | "a = x + 1" | "a > x + 1" by linarith
  then show ?thesis
  proof cases
    case 1 then show ?thesis by (simp add: vbar_def hbar_def nextState_def)
  next
    case 2 then show ?thesis by (simp add: vbar_def hbar_def nextState_def)
  next
    case 3 then show ?thesis by (simp add: vbar_def hbar_def nextState_def)
  next
    case 4 then show ?thesis by (simp add: vbar_def hbar_def nextState_def)
  next
    case 5 then show ?thesis by (simp add: vbar_def hbar_def nextState_def)
  qed
qed

lemma hbar_step:
  "nextState (hbar x y a b)
     (hbar x y (a - 1) (b - 1) + hbar x y (a - 1) b + hbar x y (a - 1) (b + 1) +
      hbar x y a (b - 1) + hbar x y a (b + 1) +
      hbar x y (a + 1) (b - 1) + hbar x y (a + 1) b + hbar x y (a + 1) (b + 1)) = vbar x y a b"
proof -
  consider "b < y" | "b = y" | "b = y + 1" | "b = y + 2" | "b > y + 2" by linarith
  then show ?thesis
  proof cases
    case 1 then show ?thesis by (simp add: vbar_def hbar_def nextState_def)
  next
    case 2 then show ?thesis by (simp add: vbar_def hbar_def nextState_def)
  next
    case 3 then show ?thesis by (simp add: vbar_def hbar_def nextState_def)
  next
    case 4 then show ?thesis by (simp add: vbar_def hbar_def nextState_def)
  next
    case 5 then show ?thesis by (simp add: vbar_def hbar_def nextState_def)
  qed
qed

subsection \<open>Grids given by a function\<close>

lemma grid_of_dims:
  assumes "0 \<le> w" "0 < w \<Longrightarrow> 0 \<le> h"
  shows "dims (grid_of w h f) w h"
  using assms by (auto simp: dims_def grid_of_def list_all_iff)

lemma grid_of_read:
  assumes "0 \<le> w" "0 < w \<Longrightarrow> 0 \<le> h"
  shows "read_cell (grid_of w h f) a b =
         (if 0 \<le> a \<and> a < w \<and> 0 \<le> b \<and> b < h then Some (f a b) else None)"
proof (cases "0 \<le> a \<and> a < w \<and> 0 \<le> b \<and> b < h")
  case True
  then have "grid_of w h f ! nat a ! nat b = f a b"
    by (simp add: grid_of_def)
  then show ?thesis using True read_cell_in [OF grid_of_dims [OF assms, of f], of a b] by simp
next
  case False
  then show ?thesis using read_cell_out [OF grid_of_dims [OF assms, of f], of a b] by simp
qed

lemma grid_of_eqI:
  assumes d: "dims gr w h"
    and r: "\<And>a b. 0 \<le> a \<Longrightarrow> a < w \<Longrightarrow> 0 \<le> b \<Longrightarrow> b < h \<Longrightarrow> read_cell gr a b = Some (f a b)"
  shows "gr = grid_of w h f"
proof (rule grid_ext [OF d])
  have w: "0 \<le> w" using d by (simp add: dims_def)
  have h: "0 < w \<Longrightarrow> 0 \<le> h" using d by (rule dims_height)
  show "dims (grid_of w h f) w h" using w h by (rule grid_of_dims)
  show "read_cell gr x y = read_cell (grid_of w h f) x y" for x y
  proof (cases "0 \<le> x \<and> x < w \<and> 0 \<le> y \<and> y < h")
    case True
    then show ?thesis using r [of x y] by (simp add: grid_of_read [OF w h])
  next
    case False
    then show ?thesis using read_cell_out [OF d, of x y] by (simp add: grid_of_read [OF w h])
  qed
qed

lemma grid_of_cong:
  assumes "\<And>a b. 0 \<le> a \<Longrightarrow> a < w \<Longrightarrow> 0 \<le> b \<Longrightarrow> b < h \<Longrightarrow> f a b = f' a b"
  shows "grid_of w h f = grid_of w h f'"
  unfolding grid_of_def using assms by (auto intro!: map_cong)

lemma tick_grid_of:
  assumes g: "grid g = grid_of (width g) (height g) f"
    and w: "0 \<le> width g" and h: "0 < width g \<Longrightarrow> 0 \<le> height g"
    and bin: "\<And>a b. f a b = DEAD \<or> f a b = ALIVE"
  shows "tick g = Some (g\<lparr>grid := grid_of (width g) (height g)
           (\<lambda>a b. if interior g a b
                   then nextState (f a b)
                          (f (a - 1) (b - 1) + f (a - 1) b + f (a - 1) (b + 1) +
                           f a (b - 1) + f a (b + 1) +
                           f (a + 1) (b - 1) + f (a + 1) b + f (a + 1) (b + 1))
                   else f a b)\<rparr>)"
proof -
  let ?w = "width g" and ?h = "height g"
  have d: "dims (grid g) ?w ?h" using grid_of_dims [OF w h, of f] by (simp add: g)
  have wf: "well_formed g" using d by (simp add: well_formed_def)
  have rd: "read_cell (grid g) a b =
      (if 0 \<le> a \<and> a < ?w \<and> 0 \<le> b \<and> b < ?h then Some (f a b) else None)" for a b
    using grid_of_read [OF w h, of f a b] by (simp add: g)
  have b: "binary (grid g)"
  proof (rule binaryI [OF d])
    fix x y v assume "read_cell (grid g) x y = Some v"
    then show "v = DEAD \<or> v = ALIVE" using bin [of x y] by (auto simp: rd split: if_splits)
  qed
  have ca: "cell_at (grid g) a b = f a b" if "0 \<le> a" "a < ?w" "0 \<le> b" "b < ?h" for a b
    using cell_at_read [OF d that] that by (simp add: rd)
  from tick_spec [OF wf b] obtain gr where
    t: "tick g = Some (g\<lparr>grid := gr\<rparr>)" and dg: "dims gr ?w ?h"
    and r: "\<forall>a b. read_cell gr a b =
              (if interior g a b
               then Some (nextState (cell_at (grid g) a b) (neighborSum (grid g) a b))
               else read_cell (grid g) a b)"
    by blast
  have "gr = grid_of ?w ?h
           (\<lambda>a b. if interior g a b
                   then nextState (f a b)
                          (f (a - 1) (b - 1) + f (a - 1) b + f (a - 1) (b + 1) +
                           f a (b - 1) + f a (b + 1) +
                           f (a + 1) (b - 1) + f (a + 1) b + f (a + 1) (b + 1))
                   else f a b)"
  proof (rule grid_of_eqI [OF dg])
    fix a b assume ab: "0 \<le> a" "a < ?w" "0 \<le> b" "b < ?h"
    show "read_cell gr a b = Some (if interior g a b
                   then nextState (f a b)
                          (f (a - 1) (b - 1) + f (a - 1) b + f (a - 1) (b + 1) +
                           f a (b - 1) + f a (b + 1) +
                           f (a + 1) (b - 1) + f (a + 1) b + f (a + 1) (b + 1))
                   else f a b)"
    proof (cases "interior g a b")
      case True
      then have i: "1 \<le> a" "a < ?w - 1" "1 \<le> b" "b < ?h - 1" by (simp_all add: interior_def)
      have "neighborSum (grid g) a b =
          f (a - 1) (b - 1) + f (a - 1) b + f (a - 1) (b + 1) +
          f a (b - 1) + f a (b + 1) +
          f (a + 1) (b - 1) + f (a + 1) b + f (a + 1) (b + 1)"
        unfolding neighborSum_def using i by (simp add: ca)
      then show ?thesis using r True ab by (simp add: ca)
    next
      case False
      then show ?thesis using r ab by (simp add: rd)
    qed
  qed
  then show ?thesis using t by simp
qed

subsection \<open>The two phases on the grid\<close>

lemma vbar_cells:
  "(\<lambda>a b. if Cell a b \<in> set [Cell x y, Cell x (y + 1), Cell x (y + 2)] then ALIVE else DEAD) =
   vbar x y"
  by (intro ext) (auto simp: vbar_def)

lemma hbar_cells:
  "(\<lambda>a b. if Cell a b \<in> set [Cell (x - 1) (y + 1), Cell x (y + 1), Cell (x + 1) (y + 1)]
           then ALIVE else DEAD) = hbar x y"
  by (intro ext) (auto simp: hbar_def)

lemma vbar_binary: "vbar x y a b = DEAD \<or> vbar x y a b = ALIVE"
  by (simp add: vbar_def)

lemma hbar_binary: "hbar x y a b = DEAD \<or> hbar x y a b = ALIVE"
  by (simp add: hbar_def)

lemma tick_vbar:
  assumes g: "grid g = grid_of (width g) (height g) (vbar x y)"
    and w: "0 \<le> width g" and h: "0 < width g \<Longrightarrow> 0 \<le> height g"
  shows "tick g = Some (g\<lparr>grid := grid_of (width g) (height g)
           (\<lambda>a b. if interior g a b then hbar x y a b else vbar x y a b)\<rparr>)"
  using tick_grid_of [OF g w h vbar_binary] by (simp add: vbar_step cong: if_cong)

lemma tick_hbar:
  assumes g: "grid g = grid_of (width g) (height g) (hbar x y)"
    and w: "0 \<le> width g" and h: "0 < width g \<Longrightarrow> 0 \<le> height g"
  shows "tick g = Some (g\<lparr>grid := grid_of (width g) (height g)
           (\<lambda>a b. if interior g a b then vbar x y a b else hbar x y a b)\<rparr>)"
  using tick_grid_of [OF g w h hbar_binary] by (simp add: hbar_step cong: if_cong)

lemma oscillator_game_only_alive: "only_alive oscillator_game [Cell 6 5, Cell 6 (5 + 1), Cell 6 (5 + 2)]"
proof -
  have d: "dims (grid oscillator_game) 50 30"
    using oscillator_game_facts(2,3,5) by (simp add: well_formed_def)
  have "grid oscillator_game = grid_of 50 30 (vbar 6 5)"
    by (rule grid_of_eqI [OF d]) (simp add: oscillator_game_facts(6) vbar_def)
  then show ?thesis
    unfolding only_alive_def vbar_cells by (simp add: oscillator_game_facts(2,3))
qed

lemma edge_game_facts:
  shows "new_Game 40 20 CHR ''o'' (- 5) 0 10 100000 = Some edge_game"
    and "width edge_game = 50" and "height edge_game = 30"
    and "grid edge_game = grid_of 50 30 (vbar 1 5)"
proof -
  have cs: "[Cell 1 0, Cell 1 1, Cell 1 2] =
      (case base_pattern CHR ''o'' of Some c \<Rightarrow> c | None \<Rightarrow> [])"
    by (simp add: base_pattern_def)
  have cw: "cells_within (map (shift_by (5 + (- 5)) (5 + 0)) [Cell 1 0, Cell 1 1, Cell 1 2])
      (40 + 10) (20 + 10)"
    by (simp add: cells_within_def shift_by_def)
  from new_Game_spec [of 40 20 "[Cell 1 0, Cell 1 1, Cell 1 2]" "CHR ''o''" "- 5" 0 10 100000,
      OF _ _ _ _ cs cw]
  obtain gr where n: "new_Game 40 20 CHR ''o'' (- 5) 0 10 100000 =
       Some \<lparr>width = 50, height = 30, buffer = 5, generations = 10,
             pauseLength = 100000, grid = gr,
             patternCells = [Cell 1 5, Cell 1 6, Cell 1 7]\<rparr>"
    and d: "dims gr 50 30"
    and r: "\<forall>a b. read_cell gr a b =
             (if 0 \<le> a \<and> a < 50 \<and> 0 \<le> b \<and> b < 30
              then Some (if Cell a b \<in> set [Cell 1 5, Cell 1 6, Cell 1 7]
                         then ALIVE else DEAD)
              else None)"
    by (auto simp: INT_MAX_def shift_by_def)
  have g: "edge_game = \<lparr>width = 50, height = 30, buffer = 5, generations = 10,
             pauseLength = 100000, grid = gr,
             patternCells = [Cell 1 5, Cell 1 6, Cell 1 7]\<rparr>"
    by (simp add: edge_game_def n)
  show "new_Game 40 20 CHR ''o'' (- 5) 0 10 100000 = Some edge_game" by (simp add: g n)
  show "width edge_game = 50" "height edge_game = 30" by (simp_all add: g)
  have "gr = grid_of 50 30 (vbar 1 5)"
    by (rule grid_of_eqI [OF d]) (simp add: r vbar_def)
  then show "grid edge_game = grid_of 50 30 (vbar 1 5)" by (simp add: g)
qed

subsection \<open>The oscillator placed on the border\<close>



section \<open>The claims\<close>

subsection \<open>C1: the rule\<close>

text \<open>
  C1. For every current state in \<open>{ALIVE, DEAD}\<close> and every count of live neighbours
  from 0 to 8, \<open>determineFate\<close> writes one determined value into the next grid: \<open>DEAD\<close>
  when the count is below 2 or above 3, the current state when the count is 2, \<open>ALIVE\<close>
  when the count is 3. This is \<open>nextState\<close> as the specification words it, and a live
  cell and a dead cell are treated alike.
\<close>

theorem determineFate_rule:
  assumes wf: "well_formed g" and dn: "dims nextGrid (width g) (height g)"
    and cur: "read_cell (grid g) x y = Some currentState"
    and st: "currentState = ALIVE \<or> currentState = DEAD"
    and cnt: "totalLiveNeighbors g x y = Some count" and rng: "0 \<le> count" "count \<le> 8"
  shows "\<exists>ng. determineFate g (Cell x y) nextGrid = Some ng \<and>
           read_cell ng x y = Some (nextState currentState count) \<and>
           (count < 2 \<or> count > 3 \<longrightarrow> read_cell ng x y = Some DEAD) \<and>
           (count = 2 \<longrightarrow> read_cell ng x y = Some currentState) \<and>
           (count = 3 \<longrightarrow> read_cell ng x y = Some ALIVE)"
proof -
  have d: "dims (grid g) (width g) (height g)" using wf by (simp add: well_formed_def)
  have b: "0 \<le> x" "x < width g" "0 \<le> y" "y < height g"
    using read_cell_Some_iff [OF d, of x y] cur by auto
  let ?v = "nextState currentState count"
  from write_cell_in [OF dn b, of ?v] obtain ng where
    w: "write_cell nextGrid x y ?v = Some ng" and r: "read_cell ng x y = Some ?v"
    by auto
  have "determineFate g (Cell x y) nextGrid = write_cell nextGrid x y ?v"
    by (auto simp: determineFate_def cnt cur nextState_def)
  then have "determineFate g (Cell x y) nextGrid = Some ng" using w by simp
  moreover have "count < 2 \<or> count > 3 \<longrightarrow> ?v = DEAD" by (simp add: nextState_def)
  moreover have "count = 2 \<longrightarrow> ?v = currentState" by (simp add: nextState_def)
  moreover have "count = 3 \<longrightarrow> ?v = ALIVE" by (simp add: nextState_def)
  ultimately show ?thesis using r by auto
qed

theorem determineFate_rule_witness:
  "(\<exists>ng. determineFate oscillator_game (Cell 6 6) (replicate 50 (replicate 30 DEAD)) = Some ng \<and>
         read_cell ng 6 6 = Some ALIVE) \<and>
   (\<exists>ng. determineFate oscillator_game (Cell 5 6) (replicate 50 (replicate 30 DEAD)) = Some ng \<and>
         read_cell ng 5 6 = Some ALIVE) \<and>
   (\<exists>ng. determineFate oscillator_game (Cell 6 5) (replicate 50 (replicate 30 DEAD)) = Some ng \<and>
         read_cell ng 6 5 = Some DEAD)"
proof -
  have dn: "dims (replicate 50 (replicate 30 DEAD)) (width oscillator_game) (height oscillator_game)"
    using dims_replicate [of 50 30 DEAD] by (simp add: oscillator_game_facts(2,3))
  have c66: "read_cell (grid oscillator_game) 6 6 = Some ALIVE"
    and c56: "read_cell (grid oscillator_game) 5 6 = Some DEAD"
    and c65: "read_cell (grid oscillator_game) 6 5 = Some ALIVE"
    by (simp_all add: oscillator_game_facts(6))
  from determineFate_rule [OF oscillator_game_facts(5) dn c66 _ oscillator_game_total_66]
  have "\<exists>ng. determineFate oscillator_game (Cell 6 6) (replicate 50 (replicate 30 DEAD)) = Some ng \<and>
         read_cell ng 6 6 = Some ALIVE" by auto
  moreover
  from determineFate_rule [OF oscillator_game_facts(5) dn c56 _ oscillator_game_total_56]
  have "\<exists>ng. determineFate oscillator_game (Cell 5 6) (replicate 50 (replicate 30 DEAD)) = Some ng \<and>
         read_cell ng 5 6 = Some ALIVE" by auto
  moreover
  from determineFate_rule [OF oscillator_game_facts(5) dn c65 _ oscillator_game_total_65]
  have "\<exists>ng. determineFate oscillator_game (Cell 6 5) (replicate 50 (replicate 30 DEAD)) = Some ng \<and>
         read_cell ng 6 5 = Some DEAD" by auto
  ultimately show ?thesis by blast
qed

subsection \<open>C2: a tick reads the old generation only\<close>

text \<open>
  C2. One tick computes the next generation from the current one alone: on every grid
  of binary cells the tick is defined, and each cell off the border of the new grid is
  the rule applied to the old grid's cell and to the sum of the eight neighbouring
  cells of the old grid. That sum is \<open>neighborSum\<close> of the old grid, and it is what the
  tick's \<open>totalLiveNeighbors\<close> computes.
\<close>

theorem tick_reads_old_generation:
  assumes wf: "well_formed g" and b: "binary (grid g)"
  shows "\<exists>g'. tick g = Some g' \<and>
           (\<forall>x y. interior g x y \<longrightarrow>
              (\<exists>cur n1 n2 n3 n4 n5 n6 n7 n8.
                 read_cell (grid g) x y = Some cur \<and>
                 read_cell (grid g) (x - 1) (y - 1) = Some n1 \<and>
                 read_cell (grid g) (x - 1) y = Some n2 \<and>
                 read_cell (grid g) (x - 1) (y + 1) = Some n3 \<and>
                 read_cell (grid g) x (y - 1) = Some n4 \<and>
                 read_cell (grid g) x (y + 1) = Some n5 \<and>
                 read_cell (grid g) (x + 1) (y - 1) = Some n6 \<and>
                 read_cell (grid g) (x + 1) y = Some n7 \<and>
                 read_cell (grid g) (x + 1) (y + 1) = Some n8 \<and>
                 neighborSum (grid g) x y = n1 + n2 + n3 + n4 + n5 + n6 + n7 + n8 \<and>
                 totalLiveNeighbors g x y = Some (neighborSum (grid g) x y) \<and>
                 read_cell (grid g') x y =
                   Some (nextState cur (n1 + n2 + n3 + n4 + n5 + n6 + n7 + n8))))"
proof -
  have d: "dims (grid g) (width g) (height g)" using wf by (simp add: well_formed_def)
  from tick_spec [OF wf b] obtain gr where
    t: "tick g = Some (g\<lparr>grid := gr\<rparr>)"
    and r: "\<forall>a b. read_cell gr a b =
              (if interior g a b
               then Some (nextState (cell_at (grid g) a b) (neighborSum (grid g) a b))
               else read_cell (grid g) a b)"
    by blast
  let ?c = "cell_at (grid g)"
  have "\<exists>cur n1 n2 n3 n4 n5 n6 n7 n8.
          read_cell (grid g) x y = Some cur \<and>
          read_cell (grid g) (x - 1) (y - 1) = Some n1 \<and>
          read_cell (grid g) (x - 1) y = Some n2 \<and>
          read_cell (grid g) (x - 1) (y + 1) = Some n3 \<and>
          read_cell (grid g) x (y - 1) = Some n4 \<and>
          read_cell (grid g) x (y + 1) = Some n5 \<and>
          read_cell (grid g) (x + 1) (y - 1) = Some n6 \<and>
          read_cell (grid g) (x + 1) y = Some n7 \<and>
          read_cell (grid g) (x + 1) (y + 1) = Some n8 \<and>
          neighborSum (grid g) x y = n1 + n2 + n3 + n4 + n5 + n6 + n7 + n8 \<and>
          totalLiveNeighbors g x y = Some (neighborSum (grid g) x y) \<and>
          read_cell (grid (g\<lparr>grid := gr\<rparr>)) x y =
            Some (nextState cur (n1 + n2 + n3 + n4 + n5 + n6 + n7 + n8))"
    if i: "interior g x y" for x y
  proof -
    have x: "1 \<le> x" "x < width g - 1" and y: "1 \<le> y" "y < height g - 1"
      using i by (simp_all add: interior_def)
    have rd: "read_cell (grid g) a c = Some (?c a c)"
      if "x - 1 \<le> a" "a \<le> x + 1" "y - 1 \<le> c" "c \<le> y + 1" for a c
      using that x y by (intro cell_at_read [OF d]) linarith+
    have tl: "totalLiveNeighbors g x y = Some (neighborSum (grid g) x y)"
      by (rule totalLiveNeighbors_spec(1) [OF d b x y])
    have new: "read_cell (grid (g\<lparr>grid := gr\<rparr>)) x y =
        Some (nextState (?c x y) (neighborSum (grid g) x y))"
      using r i by simp
    have ns: "neighborSum (grid g) x y =
        ?c (x - 1) (y - 1) + ?c (x - 1) y + ?c (x - 1) (y + 1) + ?c x (y - 1) +
        ?c x (y + 1) + ?c (x + 1) (y - 1) + ?c (x + 1) y + ?c (x + 1) (y + 1)"
      by (simp add: neighborSum_def)
    show ?thesis
      apply (rule exI [of _ "?c x y"])
      apply (rule exI [of _ "?c (x - 1) (y - 1)"])
      apply (rule exI [of _ "?c (x - 1) y"])
      apply (rule exI [of _ "?c (x - 1) (y + 1)"])
      apply (rule exI [of _ "?c x (y - 1)"])
      apply (rule exI [of _ "?c x (y + 1)"])
      apply (rule exI [of _ "?c (x + 1) (y - 1)"])
      apply (rule exI [of _ "?c (x + 1) y"])
      apply (rule exI [of _ "?c (x + 1) (y + 1)"])
      using tl new ns by (simp add: rd)
  qed
  then show ?thesis using t by blast
qed

theorem tick_reads_old_generation_witness:
  "\<exists>g'. tick oscillator_game = Some g' \<and> read_cell (grid g') 5 6 = Some ALIVE \<and>
        neighborSum (grid oscillator_game) 5 6 = 3"
proof -
  have i: "interior oscillator_game 5 6"
    by (simp add: interior_def oscillator_game_facts(2,3))
  from tick_reads_old_generation [OF oscillator_game_facts(5) oscillator_game_binary]
  obtain g' where t: "tick oscillator_game = Some g'"
    and r: "\<forall>x y. interior oscillator_game x y \<longrightarrow>
              (\<exists>cur n1 n2 n3 n4 n5 n6 n7 n8.
                 read_cell (grid oscillator_game) x y = Some cur \<and>
                 read_cell (grid oscillator_game) (x - 1) (y - 1) = Some n1 \<and>
                 read_cell (grid oscillator_game) (x - 1) y = Some n2 \<and>
                 read_cell (grid oscillator_game) (x - 1) (y + 1) = Some n3 \<and>
                 read_cell (grid oscillator_game) x (y - 1) = Some n4 \<and>
                 read_cell (grid oscillator_game) x (y + 1) = Some n5 \<and>
                 read_cell (grid oscillator_game) (x + 1) (y - 1) = Some n6 \<and>
                 read_cell (grid oscillator_game) (x + 1) y = Some n7 \<and>
                 read_cell (grid oscillator_game) (x + 1) (y + 1) = Some n8 \<and>
                 neighborSum (grid oscillator_game) x y =
                   n1 + n2 + n3 + n4 + n5 + n6 + n7 + n8 \<and>
                 totalLiveNeighbors oscillator_game x y =
                   Some (neighborSum (grid oscillator_game) x y) \<and>
                 read_cell (grid g') x y =
                   Some (nextState cur (n1 + n2 + n3 + n4 + n5 + n6 + n7 + n8)))"
    by blast
  from r [rule_format, OF i] obtain cur n1 n2 n3 n4 n5 n6 n7 n8 where
    "read_cell (grid oscillator_game) 5 6 = Some cur"
    "read_cell (grid oscillator_game) (5 - 1) (6 - 1) = Some n1"
    "read_cell (grid oscillator_game) (5 - 1) 6 = Some n2"
    "read_cell (grid oscillator_game) (5 - 1) (6 + 1) = Some n3"
    "read_cell (grid oscillator_game) 5 (6 - 1) = Some n4"
    "read_cell (grid oscillator_game) 5 (6 + 1) = Some n5"
    "read_cell (grid oscillator_game) (5 + 1) (6 - 1) = Some n6"
    "read_cell (grid oscillator_game) (5 + 1) 6 = Some n7"
    "read_cell (grid oscillator_game) (5 + 1) (6 + 1) = Some n8"
    and ns: "neighborSum (grid oscillator_game) 5 6 = n1 + n2 + n3 + n4 + n5 + n6 + n7 + n8"
    and new: "read_cell (grid g') 5 6 =
                Some (nextState cur (n1 + n2 + n3 + n4 + n5 + n6 + n7 + n8))"
    by blast
  then have v: "cur = DEAD" "n1 = DEAD" "n2 = DEAD" "n3 = DEAD" "n4 = DEAD" "n5 = DEAD"
    "n6 = ALIVE" "n7 = ALIVE" "n8 = ALIVE"
    by (simp_all add: oscillator_game_facts(6))
  have "read_cell (grid g') 5 6 = Some ALIVE" using new by (simp add: v nextState_def)
  moreover have "neighborSum (grid oscillator_game) 5 6 = 3" using ns by (simp add: v)
  ultimately show ?thesis using t by blast
qed

subsection \<open>C3: the border\<close>




subsection \<open>C4: placing a pattern\<close>

text \<open>
  C4. For a letter of the catalogue, placing the pattern with offsets
  \<open>(xOffset, yOffset)\<close> marks the cell \<open>(buffer + xOffset + dx, buffer + yOffset + dy)\<close>
  \<open>ALIVE\<close> for each offset \<open>(dx, dy)\<close> of the catalogue. After \<open>clearGrid\<close>, placing it
  with offsets \<open>(0, 0)\<close> leaves \<open>ALIVE\<close> exactly the cells \<open>(buffer + dx, buffer + dy)\<close>
  and every other cell \<open>DEAD\<close>. The placement is defined whenever the translated cells
  lie inside the grid.
\<close>

theorem placement_stamps_catalogue:
  assumes wf: "well_formed g" and key: "base_pattern key = Some cs"
  shows "(\<forall>g'. placePattern g key xo yo = Some g' \<longrightarrow>
            (\<forall>c \<in> set cs. read_cell (grid g') (buffer g + xo + cell_x c)
                               (buffer g + yo + cell_y c) = Some ALIVE)) \<and>
         (\<exists>g1. clearGrid g = Some g1 \<and> well_formed g1 \<and>
            width g1 = width g \<and> height g1 = height g \<and> buffer g1 = buffer g \<and>
            (\<forall>g'. placePattern g1 key 0 0 = Some g' \<longrightarrow>
               (\<forall>a b. 0 \<le> a \<and> a < width g \<and> 0 \<le> b \<and> b < height g \<longrightarrow>
                  read_cell (grid g') a b =
                    Some (if Cell (a - buffer g) (b - buffer g) \<in> set cs
                          then ALIVE else DEAD)))) \<and>
         (width g \<le> INT_MAX \<and> height g \<le> INT_MAX \<and>
          cells_within (map (shift_by (buffer g + xo) (buffer g + yo)) cs) (width g) (height g)
            \<longrightarrow> (\<exists>g'. placePattern g key xo yo = Some g'))"
proof (intro conjI)
  show "\<forall>g'. placePattern g key xo yo = Some g' \<longrightarrow>
            (\<forall>c \<in> set cs. read_cell (grid g') (buffer g + xo + cell_x c)
                               (buffer g + yo + cell_y c) = Some ALIVE)"
  proof (intro allI impI ballI)
    fix g' c assume p: "placePattern g key xo yo = Some g'" and c: "c \<in> set cs"
    have "Cell (buffer g + xo + cell_x c - (buffer g + xo))
               (buffer g + yo + cell_y c - (buffer g + yo)) = c" by simp
    then show "read_cell (grid g') (buffer g + xo + cell_x c) (buffer g + yo + cell_y c) =
        Some ALIVE"
      using placePattern_SomeD [OF wf key p] c by simp
  qed
next
  from clearGrid_spec [OF wf] obtain gr where
    c: "clearGrid g = Some (g\<lparr>grid := gr\<rparr>)" and d: "dims gr (width g) (height g)"
    and r: "\<forall>a b. read_cell gr a b =
              (if 0 \<le> a \<and> a < width g \<and> 0 \<le> b \<and> b < height g then Some DEAD else None)"
    by blast
  let ?g1 = "g\<lparr>grid := gr\<rparr>"
  have wf1: "well_formed ?g1" using d by (simp add: well_formed_def)
  have "read_cell (grid g') a b =
          Some (if Cell (a - buffer g) (b - buffer g) \<in> set cs then ALIVE else DEAD)"
    if "placePattern ?g1 key 0 0 = Some g'" "0 \<le> a \<and> a < width g \<and> 0 \<le> b \<and> b < height g"
    for g' a b
    using placePattern_SomeD [OF wf1 key that(1)] r that(2) by simp
  then show "\<exists>g1. clearGrid g = Some g1 \<and> well_formed g1 \<and>
            width g1 = width g \<and> height g1 = height g \<and> buffer g1 = buffer g \<and>
            (\<forall>g'. placePattern g1 key 0 0 = Some g' \<longrightarrow>
               (\<forall>a b. 0 \<le> a \<and> a < width g \<and> 0 \<le> b \<and> b < height g \<longrightarrow>
                  read_cell (grid g') a b =
                    Some (if Cell (a - buffer g) (b - buffer g) \<in> set cs
                          then ALIVE else DEAD)))"
    using c wf1 by (intro exI [of _ ?g1]) simp
next
  show "width g \<le> INT_MAX \<and> height g \<le> INT_MAX \<and>
          cells_within (map (shift_by (buffer g + xo) (buffer g + yo)) cs) (width g) (height g)
            \<longrightarrow> (\<exists>g'. placePattern g key xo yo = Some g')"
    using placePattern_defined [OF wf key] by blast
qed

theorem placement_stamps_catalogue_witness:
  "(\<exists>g'. placePattern oscillator_game CHR ''g'' 3 4 = Some g' \<and>
         read_cell (grid g') 8 11 = Some ALIVE) \<and>
   (\<exists>g1 g'. clearGrid oscillator_game = Some g1 \<and> placePattern g1 CHR ''g'' 0 0 = Some g' \<and>
         read_cell (grid g') 5 7 = Some ALIVE \<and> read_cell (grid g') 6 6 = Some DEAD)"
proof -
  let ?cs = "[Cell 0 2, Cell 1 0, Cell 1 2, Cell 2 1, Cell 2 2]"
  have key: "base_pattern CHR ''g'' = Some ?cs" by (simp add: base_pattern_def)
  note f = oscillator_game_facts
  note t = placement_stamps_catalogue [OF f(5) key]
  have "\<exists>g'. placePattern oscillator_game CHR ''g'' 3 4 = Some g'"
    using t [of 3 4] by (simp add: f(2,3,4) INT_MAX_def cells_within_def shift_by_def)
  then obtain g' where p: "placePattern oscillator_game CHR ''g'' 3 4 = Some g'" by blast
  have "read_cell (grid g') (buffer oscillator_game + 3 + cell_x (Cell 0 2))
          (buffer oscillator_game + 4 + cell_y (Cell 0 2)) = Some ALIVE"
    using t [of 3 4] p by simp
  then have a: "read_cell (grid g') 8 11 = Some ALIVE" by (simp add: f(4))
  from t [of 0 0] obtain g1 where c: "clearGrid oscillator_game = Some g1"
    and wf1: "well_formed g1"
    and d1: "width g1 = 50" "height g1 = 30" "buffer g1 = 5"
    and r: "\<forall>g'. placePattern g1 CHR ''g'' 0 0 = Some g' \<longrightarrow>
              (\<forall>a b. 0 \<le> a \<and> a < 50 \<and> 0 \<le> b \<and> b < 30 \<longrightarrow>
                 read_cell (grid g') a b =
                   Some (if Cell (a - 5) (b - 5) \<in> set ?cs then ALIVE else DEAD))"
    by (auto simp: f(2,3,4))
  have "\<exists>g'. placePattern g1 CHR ''g'' 0 0 = Some g'"
    using placement_stamps_catalogue [OF wf1 key, of 0 0]
    by (simp add: d1 INT_MAX_def cells_within_def shift_by_def)
  then obtain g2 where p2: "placePattern g1 CHR ''g'' 0 0 = Some g2" by blast
  have "read_cell (grid g2) 5 7 = Some ALIVE" "read_cell (grid g2) 6 6 = Some DEAD"
    using r p2 by simp_all
  then show ?thesis using a p c p2 by blast
qed

subsection \<open>C5: the neighbour sum\<close>

text \<open>
  C5. At every cell off the border of a grid whose cells are all 0 or 1, the sum of the
  eight neighbours that \<open>determineFate\<close> computes is defined and lies between 0 and 8;
  when every cell of the grid is \<open>DEAD\<close> the sum is 0.
\<close>

theorem totalLiveNeighbors_range:
  assumes wf: "well_formed g" and b: "binary (grid g)" and i: "interior g x y"
  shows "\<exists>n. totalLiveNeighbors g x y = Some n \<and> 0 \<le> n \<and> n \<le> 8 \<and>
           (all_dead (grid g) \<longrightarrow> n = 0)"
proof -
  have d: "dims (grid g) (width g) (height g)" using wf by (simp add: well_formed_def)
  have x: "1 \<le> x" "x < width g - 1" and y: "1 \<le> y" "y < height g - 1"
    using i by (simp_all add: interior_def)
  note t = totalLiveNeighbors_spec [OF d b x y]
  have "neighborSum (grid g) x y = 0" if ad: "all_dead (grid g)"
  proof -
    have "cell_at (grid g) a c = DEAD"
      if "x - 1 \<le> a" "a \<le> x + 1" "y - 1 \<le> c" "c \<le> y + 1" for a c
    proof -
      have "read_cell (grid g) a c = Some (cell_at (grid g) a c)"
        using that x y by (intro cell_at_read [OF d]) linarith+
      then show ?thesis using all_dead_read [OF ad] by blast
    qed
    then show ?thesis by (simp add: neighborSum_def)
  qed
  then show ?thesis using t by auto
qed

theorem totalLiveNeighbors_range_witness:
  "totalLiveNeighbors oscillator_game 6 6 = Some 2 \<and> totalLiveNeighbors empty_game 6 6 = Some 0"
proof -
  have i1: "interior oscillator_game 6 6"
    by (simp add: interior_def oscillator_game_facts(2,3))
  have i2: "interior empty_game 6 6"
    by (simp add: interior_def empty_game_facts(2,3))
  from totalLiveNeighbors_range [OF oscillator_game_facts(5) oscillator_game_binary i1]
  have "totalLiveNeighbors oscillator_game 6 6 = Some 2"
    by (simp add: oscillator_game_total_66)
  moreover
  from totalLiveNeighbors_range [OF empty_game_facts(5)
      all_dead_binary [OF empty_game_all_dead] i2] empty_game_all_dead
  have "totalLiveNeighbors empty_game 6 6 = Some 0" by auto
  ultimately show ?thesis by simp
qed

subsection \<open>C6: the blinker\<close>

text \<open>
  C6 as stated fails beside the border. \<open>Game(40, 20, 'o', -5, 0, 10, 100000)\<close> holds
  only the three cells \<open>(1, 5)\<close>, \<open>(1, 6)\<close>, \<open>(1, 7)\<close>, all of them off the border; two
  ticks are defined and do not give the grid back, since the tick never writes the
  border cell \<open>(0, 6)\<close>.
\<close>

theorem blinker_beside_border_counterexample:
  "new_Game 40 20 CHR ''o'' (- 5) 0 10 100000 = Some edge_game \<and>
   only_alive edge_game [Cell 1 5, Cell 1 6, Cell 1 7] \<and>
   interior edge_game 1 5 \<and> interior edge_game 1 6 \<and> interior edge_game 1 7 \<and>
   ticks 2 edge_game \<noteq> None \<and> ticks 2 edge_game \<noteq> Some edge_game"
proof -
  note f = edge_game_facts
  have g: "grid edge_game = grid_of (width edge_game) (height edge_game) (vbar 1 5)"
    by (simp add: f)
  define F1 where "F1 = (\<lambda>a b. if interior edge_game a b then hbar 1 5 a b else vbar 1 5 a b)"
  define g1 where "g1 = edge_game\<lparr>grid := grid_of 50 30 F1\<rparr>"
  have t1: "tick edge_game = Some g1"
    using tick_vbar [OF g] by (simp add: f g1_def F1_def)
  have b1: "F1 a b = DEAD \<or> F1 a b = ALIVE" for a b
    by (simp add: F1_def hbar_def vbar_def)
  have d1: "width g1 = 50" "height g1 = 30" by (simp_all add: g1_def f)
  have gg1: "grid g1 = grid_of (width g1) (height g1) F1" by (simp add: g1_def f)
  define F2 where "F2 = (\<lambda>a b. if interior g1 a b
                   then nextState (F1 a b)
                          (F1 (a - 1) (b - 1) + F1 (a - 1) b + F1 (a - 1) (b + 1) +
                           F1 a (b - 1) + F1 a (b + 1) +
                           F1 (a + 1) (b - 1) + F1 (a + 1) b + F1 (a + 1) (b + 1))
                   else F1 a b)"
  define g2 where "g2 = g1\<lparr>grid := grid_of 50 30 F2\<rparr>"
  have t2: "tick g1 = Some g2"
    using tick_grid_of [of g1 F1, OF gg1 _ _ b1] by (simp add: d1 g2_def F2_def)
  have t: "ticks 2 edge_game = Some g2"
    using t1 t2 by (simp add: numeral_2_eq_2)
  have "F2 1 5 = DEAD"
    by (simp add: F2_def F1_def interior_def d1 f hbar_def vbar_def nextState_def)
  then have r2: "read_cell (grid g2) 1 5 = Some DEAD"
    by (simp add: g2_def grid_of_read)
  have r0: "read_cell (grid edge_game) 1 5 = Some ALIVE"
    by (simp add: f grid_of_read vbar_def)
  have ne: "g2 \<noteq> edge_game"
  proof
    assume "g2 = edge_game"
    then show False using r2 r0 by simp
  qed
  have "only_alive edge_game [Cell 1 5, Cell 1 (5 + 1), Cell 1 (5 + 2)]"
    unfolding only_alive_def vbar_cells by (simp add: f)
  then have oa: "only_alive edge_game [Cell 1 5, Cell 1 6, Cell 1 7]" by simp
  have i: "interior edge_game 1 5" "interior edge_game 1 6" "interior edge_game 1 7"
    by (simp_all add: interior_def f)
  show ?thesis using f(1) oa i t ne by simp
qed

text \<open>
  C6, as the code has it. A grid whose only live cells are the three of a vertical
  blinker in column \<open>x\<close>, rows \<open>y\<close> to \<open>y + 2\<close>, with both of its phases off the border
  (\<open>2 \<le> x \<le> width - 3\<close>, \<open>1 \<le> y\<close> and \<open>y + 2 \<le> height - 2\<close>), becomes after one tick the
  horizontal blinker, which is a different grid, and after the second tick the grid it
  started as.
\<close>

theorem blinker_period_two:
  assumes oa: "only_alive g [Cell x y, Cell x (y + 1), Cell x (y + 2)]"
    and x: "2 \<le> x" "x \<le> width g - 3" and y: "1 \<le> y" "y + 2 \<le> height g - 2"
  shows "\<exists>g1. tick g = Some g1 \<and> g1 \<noteq> g \<and>
           only_alive g1 [Cell (x - 1) (y + 1), Cell x (y + 1), Cell (x + 1) (y + 1)] \<and>
           tick g1 = Some g"
proof -
  let ?w = "width g" and ?h = "height g"
  have w: "0 \<le> ?w" and h: "0 < ?w \<Longrightarrow> 0 \<le> ?h" using x y by linarith+
  have g: "grid g = grid_of ?w ?h (vbar x y)"
    using oa unfolding only_alive_def vbar_cells .
  let ?g1 = "g\<lparr>grid := grid_of ?w ?h (hbar x y)\<rparr>"
  have e1: "grid_of ?w ?h (\<lambda>a b. if interior g a b then hbar x y a b else vbar x y a b) =
            grid_of ?w ?h (hbar x y)"
    by (rule grid_of_cong) (use x y in \<open>auto simp: interior_def hbar_def vbar_def\<close>)
  have t1: "tick g = Some ?g1" using tick_vbar [OF g w h] by (simp add: e1)
  have e2: "grid_of ?w ?h (\<lambda>a b. if interior ?g1 a b then vbar x y a b else hbar x y a b) =
            grid_of ?w ?h (vbar x y)"
    by (rule grid_of_cong) (use x y in \<open>auto simp: interior_def hbar_def vbar_def\<close>)
  have "tick ?g1 = Some (?g1\<lparr>grid := grid_of ?w ?h (vbar x y)\<rparr>)"
    using tick_hbar [of ?g1 x y] w h by (simp add: e2)
  then have t2: "tick ?g1 = Some g" using g by simp
  have r0: "read_cell (grid g) x y = Some ALIVE"
    using x y by (simp add: g grid_of_read [OF w h] vbar_def)
  have r1: "read_cell (grid ?g1) x y = Some DEAD"
    using x y by (simp add: grid_of_read [OF w h] hbar_def)
  have ne: "?g1 \<noteq> g"
  proof
    assume "?g1 = g"
    then have "read_cell (grid ?g1) x y = read_cell (grid g) x y" by (rule arg_cong)
    then show False using r0 r1 by simp
  qed
  have "only_alive ?g1 [Cell (x - 1) (y + 1), Cell x (y + 1), Cell (x + 1) (y + 1)]"
    unfolding only_alive_def hbar_cells by simp
  then show ?thesis using t1 t2 ne by blast
qed

theorem blinker_period_two_witness:
  "\<exists>g1. tick oscillator_game = Some g1 \<and> g1 \<noteq> oscillator_game \<and>
        only_alive g1 [Cell 5 6, Cell 6 6, Cell 7 6] \<and> tick g1 = Some oscillator_game"
  using blinker_period_two [OF oscillator_game_only_alive]
  by (simp add: oscillator_game_facts(2,3))

subsection \<open>C7: a letter outside the catalogue\<close>

text \<open>
  C7 as stated fails: the letter \<open>'x'\<close> is not in the catalogue, yet
  \<open>Game(40, 20, 'x', 0, 0, 10, 100000)\<close> is constructed, and placing \<open>'x'\<close> on the game
  it returns succeeds and changes nothing.
\<close>

theorem unknown_pattern_counterexample:
  "base_pattern CHR ''x'' = None \<and>
   new_Game 40 20 CHR ''x'' 0 0 10 100000 = Some empty_game \<and>
   placePattern empty_game CHR ''x'' 0 0 = Some empty_game"
proof -
  have b: "base_pattern CHR ''x'' = None" by (simp add: base_pattern_def)
  have "placePattern empty_game CHR ''x'' 0 0 = Some empty_game"
    by (simp add: placePattern_def setPatternVector_empty [OF b empty_game_facts(7)]
        initializePattern_empty [OF empty_game_facts(7)])
  then show ?thesis using b empty_game_facts(1) by simp
qed

text \<open>
  C7, as the code has it. A letter outside the catalogue is no error: \<open>setPatternVector\<close>
  takes the \<open>default\<close> branch and assigns nothing. Whenever it is defined, its result
  is the game it was given with the stored pattern cells shifted by
  \<open>(buffer + xOffset, buffer + yOffset)\<close>; and it is defined whenever none of the sums
  \<open>buffer + xOffset\<close>, \<open>buffer + yOffset\<close> and coordinate plus that sum leaves the range
  of \<open>int\<close>. On a game without pattern cells, placing the
  unknown pattern is defined and changes nothing. Whenever the constructor is defined
  for such a letter, the game it returns has no pattern cells and every cell \<open>DEAD\<close>;
  and it is defined whenever \<open>width + 10\<close> and \<open>height + 10\<close> are representable and not
  negative.
\<close>

theorem unknown_pattern_places_nothing:
  assumes key: "key \<noteq> CHR ''o''" "key \<noteq> CHR ''g''" "key \<noteq> CHR ''u''"
  shows "(\<forall>g'. setPatternVector g key xo yo = Some g' \<longrightarrow>
            g' = g\<lparr>patternCells :=
                    map (shift_by (buffer g + xo) (buffer g + yo)) (patternCells g)\<rparr>) \<and>
         (patternCells g = [] \<longrightarrow> placePattern g key xo yo = Some g) \<and>
         (0 \<le> w + 10 \<and> w + 10 \<le> INT_MAX \<and> 0 \<le> h + 10 \<and> h + 10 \<le> INT_MAX \<longrightarrow>
            (\<exists>g0. new_Game w h key xo yo gens pause = Some g0 \<and> patternCells g0 = [] \<and>
                   all_dead (grid g0))) \<and>
         (\<forall>g0. new_Game w h key xo yo gens pause = Some g0 \<longrightarrow>
            patternCells g0 = [] \<and> all_dead (grid g0)) \<and>
         (INT_MIN \<le> buffer g + xo \<and> buffer g + xo \<le> INT_MAX \<and>
          INT_MIN \<le> buffer g + yo \<and> buffer g + yo \<le> INT_MAX \<and>
          list_all (\<lambda>c. INT_MIN \<le> cell_x c + (buffer g + xo) \<and>
                         cell_x c + (buffer g + xo) \<le> INT_MAX \<and>
                         INT_MIN \<le> cell_y c + (buffer g + yo) \<and>
                         cell_y c + (buffer g + yo) \<le> INT_MAX) (patternCells g) \<longrightarrow>
            (\<exists>g'. setPatternVector g key xo yo = Some g'))"
proof -
  have b: "base_pattern key = None" using key by (simp add: base_pattern_None)
  have sc: "start_cells g key = patternCells g" by (simp add: start_cells_def b)
  have p1: "g' = g\<lparr>patternCells :=
                  map (shift_by (buffer g + xo) (buffer g + yo)) (patternCells g)\<rparr>"
    if "setPatternVector g key xo yo = Some g'" for g'
    using setPatternVector_SomeD [OF that] by (simp add: sc)
  have p2: "placePattern g key xo yo = Some g" if e: "patternCells g = []"
    by (simp add: placePattern_def setPatternVector_empty [OF b e]
        initializePattern_empty [OF e])
  have p4: "patternCells g0 = [] \<and> all_dead (grid g0)"
    if n: "new_Game w h key xo yo gens pause = Some g0" for g0
  proof -
    note c = new_Game_cells [OF n]
    have e: "patternCells g0 = []" using c(1) by (simp add: b)
    have d: "dims (grid g0) (width g0) (height g0)"
      using new_Game_SomeD [OF n] unfolding well_formed_def by blast
    have "all_dead (grid g0)"
    proof (rule all_deadI [OF d])
      fix x y v assume "read_cell (grid g0) x y = Some v"
      then show "v = DEAD" using c(3) [of x y] by (auto simp: e split: if_splits)
    qed
    then show ?thesis using e by simp
  qed
  have p3: "\<exists>g0. new_Game w h key xo yo gens pause = Some g0 \<and> patternCells g0 = [] \<and>
                   all_dead (grid g0)"
    if r: "0 \<le> w + 10 \<and> w + 10 \<le> INT_MAX \<and> 0 \<le> h + 10 \<and> h + 10 \<le> INT_MAX"
  proof -
    have cs: "[] = (case base_pattern key of Some c \<Rightarrow> c | None \<Rightarrow> [])" by (simp add: b)
    have cw: "cells_within (map (shift_by (5 + xo) (5 + yo)) []) (w + 10) (h + 10)"
      by (simp add: cells_within_def)
    from new_Game_spec [of w h "[]" key xo yo gens pause, OF _ _ _ _ cs cw] r
    obtain g0 where n: "new_Game w h key xo yo gens pause = Some g0" by auto
    then show ?thesis using p4 [OF n] by blast
  qed
  have p5: "\<exists>g'. setPatternVector g key xo yo = Some g'"
    if r: "INT_MIN \<le> buffer g + xo \<and> buffer g + xo \<le> INT_MAX \<and>
          INT_MIN \<le> buffer g + yo \<and> buffer g + yo \<le> INT_MAX \<and>
          list_all (\<lambda>c. INT_MIN \<le> cell_x c + (buffer g + xo) \<and>
                         cell_x c + (buffer g + xo) \<le> INT_MAX \<and>
                         INT_MIN \<le> cell_y c + (buffer g + yo) \<and>
                         cell_y c + (buffer g + yo) \<le> INT_MAX) (patternCells g)"
  proof -
    let ?cs = "patternCells g"
    have e: "g\<lparr>patternCells := ?cs\<rparr> = g" by simp
    have "for_loop 0 (int (length ?cs)) (shift_cell xo yo) (g\<lparr>patternCells := ?cs\<rparr>) =
          Some (g\<lparr>patternCells := map (shift_by (buffer g + xo) (buffer g + yo)) ?cs\<rparr>)"
      by (rule shift_loop) (use r in \<open>auto simp: add_int_def list_all_iff\<close>)
    then show ?thesis unfolding setPatternVector_start sc e by simp
  qed
  show ?thesis using p1 p2 p3 p4 p5 by blast
qed

theorem unknown_pattern_places_nothing_witness:
  "placePattern empty_game CHR ''q'' 3 4 = Some empty_game \<and>
   (\<exists>g0. new_Game 40 20 CHR ''q'' 3 4 10 100000 = Some g0 \<and> patternCells g0 = [] \<and>
          all_dead (grid g0)) \<and>
   (\<exists>g'. setPatternVector oscillator_game CHR ''q'' 1 1 = Some g' \<and>
          patternCells g' = [Cell 12 11, Cell 12 12, Cell 12 13]) \<and>
   patternCells empty_game = [] \<and> all_dead (grid empty_game)"
proof -
  note t = unknown_pattern_places_nothing [of "CHR ''q''"]
  have "placePattern empty_game CHR ''q'' 3 4 = Some empty_game"
    using t [of empty_game 3 4] by (simp add: empty_game_facts(7))
  moreover have "\<exists>g0. new_Game 40 20 CHR ''q'' 3 4 10 100000 = Some g0 \<and> patternCells g0 = [] \<and>
          all_dead (grid g0)"
    using t [of empty_game 3 4 40 20 10 100000] by (simp add: INT_MAX_def)
  moreover
  have "\<exists>g'. setPatternVector oscillator_game CHR ''q'' 1 1 = Some g'"
    using t [of oscillator_game 1 1]
    by (simp add: oscillator_game_facts(4,7) INT_MIN_def INT_MAX_def)
  then obtain g' where
    s: "setPatternVector oscillator_game CHR ''q'' 1 1 = Some g'" by blast
  have "patternCells g' = [Cell 12 11, Cell 12 12, Cell 12 13]"
    using t [of oscillator_game 1 1] s
    by (simp add: oscillator_game_facts(4,7) shift_by_def)
  moreover have "patternCells empty_game = [] \<and> all_dead (grid empty_game)"
    using unknown_pattern_places_nothing [of "CHR ''x''" empty_game 0 0 40 20 10 100000]
      empty_game_facts(1) by simp
  ultimately show ?thesis using s by blast
qed

subsection \<open>C8: the constructor and the dimensions\<close>




subsection \<open>C9: rendering\<close>

text \<open>
  C9. On every grid, \<open>printWindow\<close> writes \<open>height - 2 * buffer\<close> rows of
  \<open>width - 2 * buffer\<close> characters, each row followed by a newline, whatever the margin;
  the character in row \<open>i\<close> and column \<open>j\<close> is \<open>'X'\<close> when the cell
  \<open>(buffer + j, buffer + i)\<close> is \<open>ALIVE\<close> and \<open>'.'\<close> otherwise. \<open>printWholeGrid\<close> writes
  \<open>height\<close> rows of \<open>width\<close> characters in the same way, for every cell.
\<close>

theorem rendering_dimensions:
  assumes wf: "well_formed g" and m: "0 \<le> buffer g"
  shows "\<exists>window whole.
     printWindow g = Some (unlines window) \<and>
     length window = nat (height g - 2 * buffer g) \<and>
     (\<forall>r \<in> set window. length r = nat (width g - 2 * buffer g) \<and> CHR 0x0A \<notin> set r) \<and>
     (\<forall>i j. 0 \<le> i \<and> i < height g - 2 * buffer g \<and> 0 \<le> j \<and> j < width g - 2 * buffer g \<longrightarrow>
        window ! nat i ! nat j =
          (if read_cell (grid g) (buffer g + j) (buffer g + i) = Some ALIVE
           then CHR ''X'' else CHR ''.'')) \<and>
     printWholeGrid g = Some (unlines whole) \<and>
     length whole = nat (height g) \<and>
     (\<forall>r \<in> set whole. length r = nat (width g) \<and> CHR 0x0A \<notin> set r) \<and>
     (\<forall>i j. 0 \<le> i \<and> i < height g \<and> 0 \<le> j \<and> j < width g \<longrightarrow>
        whole ! nat i ! nat j =
          (if read_cell (grid g) j i = Some ALIVE then CHR ''X'' else CHR ''.''))"
proof -
  let ?w = "width g" and ?h = "height g" and ?b = "buffer g"
  let ?window = "render g ?b (?h - ?b) ?b (?w - ?b)"
  let ?whole = "render g 0 ?h 0 ?w"
  have d: "dims (grid g) ?w ?h" using wf by (simp add: well_formed_def)
  have p1: "printWindow g = Some (unlines ?window)"
    unfolding printWindow_def using m by (intro print_rows_spec [OF d]) simp_all
  have p2: "printWholeGrid g = Some (unlines ?whole)"
    unfolding printWholeGrid_def by (intro print_rows_spec [OF d]) simp_all
  have l1: "length ?window = nat (?h - 2 * ?b)" by (simp add: render_length)
  have l2: "length ?whole = nat ?h" by (simp add: render_length)
  have r1: "\<forall>r \<in> set ?window. length r = nat (?w - 2 * ?b) \<and> CHR 0x0A \<notin> set r"
    using render_row_length [of _ g ?b "?h - ?b" ?b "?w - ?b"]
      render_no_newline [of _ g ?b "?h - ?b" ?b "?w - ?b"] by auto
  have r2: "\<forall>r \<in> set ?whole. length r = nat ?w \<and> CHR 0x0A \<notin> set r"
    using render_row_length [of _ g 0 ?h 0 ?w] render_no_newline [of _ g 0 ?h 0 ?w] by auto
  have c1: "?window ! nat i ! nat j =
      (if read_cell (grid g) (?b + j) (?b + i) = Some ALIVE then CHR ''X'' else CHR ''.'')"
    if "0 \<le> i" "i < ?h - 2 * ?b" "0 \<le> j" "j < ?w - 2 * ?b" for i j
  proof -
    have "?window ! nat i ! nat j = glyph (cell_at (grid g) (?b + j) (?b + i))"
      using that by (intro render_nth) simp_all
    also have "\<dots> = (if read_cell (grid g) (?b + j) (?b + i) = Some ALIVE
                      then CHR ''X'' else CHR ''.'')"
      using that m by (intro glyph_read [OF d]) linarith+
    finally show ?thesis .
  qed
  have c2: "?whole ! nat i ! nat j =
      (if read_cell (grid g) j i = Some ALIVE then CHR ''X'' else CHR ''.'')"
    if "0 \<le> i" "i < ?h" "0 \<le> j" "j < ?w" for i j
  proof -
    have "?whole ! nat i ! nat j = glyph (cell_at (grid g) (0 + j) (0 + i))"
      using that by (intro render_nth) simp_all
    also have "\<dots> = (if read_cell (grid g) j i = Some ALIVE then CHR ''X'' else CHR ''.'')"
      using that glyph_read [OF d, of j i] by simp
    finally show ?thesis .
  qed
  show ?thesis
    apply (rule exI [of _ ?window])
    apply (rule exI [of _ ?whole])
    using p1 p2 l1 l2 r1 r2 c1 c2 by blast
qed

theorem rendering_dimensions_witness:
  "\<exists>window whole. printWindow oscillator_game = Some (unlines window) \<and>
      length window = 20 \<and> window ! 0 ! 1 = CHR ''X'' \<and> window ! 0 ! 0 = CHR ''.'' \<and>
      printWholeGrid oscillator_game = Some (unlines whole) \<and> length whole = 30 \<and>
      whole ! 5 ! 6 = CHR ''X''"
proof -
  from rendering_dimensions [OF oscillator_game_facts(5)]
  obtain window whole where
    p: "printWindow oscillator_game = Some (unlines window)" "length window = 20"
      "printWholeGrid oscillator_game = Some (unlines whole)" "length whole = 30"
    and w: "\<forall>i j. 0 \<le> i \<and> i < 20 \<and> 0 \<le> j \<and> j < 40 \<longrightarrow>
        window ! nat i ! nat j =
          (if read_cell (grid oscillator_game) (5 + j) (5 + i) = Some ALIVE
           then CHR ''X'' else CHR ''.'')"
    and a: "\<forall>i j. 0 \<le> i \<and> i < 30 \<and> 0 \<le> j \<and> j < 50 \<longrightarrow>
        whole ! nat i ! nat j =
          (if read_cell (grid oscillator_game) j i = Some ALIVE then CHR ''X'' else CHR ''.'')"
    by (auto simp: oscillator_game_facts(2,3,4))
  from w [rule_format, of 0 1] have "window ! 0 ! 1 = CHR ''X''"
    by (simp add: oscillator_game_facts(6))
  moreover from w [rule_format, of 0 0] have "window ! 0 ! 0 = CHR ''.''"
    by (simp add: oscillator_game_facts(6))
  moreover from a [rule_format, of 5 6] have "whole ! 5 ! 6 = CHR ''X''"
    by (simp add: oscillator_game_facts(6))
  ultimately show ?thesis using p by blast
qed

subsection \<open>C10: cells stay binary\<close>

text \<open>
  C10. Cells stay binary. On a grid of binary cells \<open>clearGrid\<close> and \<open>tick\<close> are
  defined and leave every cell \<open>DEAD\<close> or \<open>ALIVE\<close>, and so does \<open>initializePattern\<close>
  whenever it is defined; the grid the constructor returns is binary, and remains so
  through any number of ticks.
\<close>

theorem binary_cells_invariant:
  assumes wf: "well_formed g" and b: "binary (grid g)"
  shows "(\<exists>g'. clearGrid g = Some g' \<and> well_formed g' \<and> binary (grid g')) \<and>
         (\<forall>g'. initializePattern g = Some g' \<longrightarrow> well_formed g' \<and> binary (grid g')) \<and>
         (\<exists>g'. tick g = Some g' \<and> well_formed g' \<and> binary (grid g')) \<and>
         (\<forall>w h p xo yo gens pause g0 k. new_Game w h p xo yo gens pause = Some g0 \<longrightarrow>
            well_formed g0 \<and> binary (grid g0) \<and>
            (\<exists>g'. ticks k g0 = Some g' \<and> well_formed g' \<and> binary (grid g')))"
proof (intro conjI allI impI)
  from clearGrid_all_dead [OF wf]
  show "\<exists>g'. clearGrid g = Some g' \<and> well_formed g' \<and> binary (grid g')"
    using all_dead_binary by fastforce
next
  fix g' assume "initializePattern g = Some g'"
  from initializePattern_preserves [OF wf b this]
  show "well_formed g'" "binary (grid g')" by simp_all
next
  from tick_preserves [OF wf b]
  show "\<exists>g'. tick g = Some g' \<and> well_formed g' \<and> binary (grid g')" by fastforce
next
  fix w h p xo yo gens pause g0 and k :: nat
  assume n: "new_Game w h p xo yo gens pause = Some g0"
  note d = new_Game_SomeD [OF n]
  show wf0: "well_formed g0" and b0: "binary (grid g0)" using d by simp_all
  from ticks_preserve [OF wf0 b0, of k]
  show "\<exists>g'. ticks k g0 = Some g' \<and> well_formed g' \<and> binary (grid g')" by fastforce
qed

theorem binary_cells_invariant_witness:
  "(\<exists>g'. clearGrid oscillator_game = Some g' \<and> binary (grid g')) \<and>
   (\<exists>g'. initializePattern oscillator_game = Some g' \<and> binary (grid g')) \<and>
   (\<exists>g'. tick oscillator_game = Some g' \<and> binary (grid g')) \<and>
   (\<exists>g'. ticks 7 oscillator_game = Some g' \<and> binary (grid g'))"
proof -
  note i = binary_cells_invariant [OF oscillator_game_facts(5) oscillator_game_binary]
  have cw: "cells_within (patternCells oscillator_game) (width oscillator_game)
      (height oscillator_game)"
    by (simp add: oscillator_game_facts(2,3,7) cells_within_def)
  from initializePattern_spec [OF oscillator_game_facts(5) cw]
  obtain g1 where g1: "initializePattern oscillator_game = Some g1" by blast
  have "binary (grid g1)" using i g1 by blast
  moreover have "\<exists>g'. ticks 7 oscillator_game = Some g' \<and> binary (grid g')"
    using i oscillator_game_facts(1) by blast
  ultimately show ?thesis using i g1 by blast
qed

end
